theory Spec2Isabelle
  imports Main "HOL-Library.Sublist"
begin

section \<open>The scanner of Wedjat (scanner.js) as a state machine\<close>

text \<open>
  The scanner is a set of JavaScript closures driven by the browser's event loop: gesture
  events of the detector, clicks on the stop button, timers set with \<open>setTimeout\<close> and the
  \<open>buttonFinished\<close> event of a pressed button. The model keeps the variables of every
  closure in a store, the registered listeners and the pending timers in the state, and
  runs one handler per event. Callbacks are first-order data (\<open>cont\<close>). Calls on the
  collaborators (buttons, speaker, detector, menus) are recorded in a trace, in order.
\<close>

subsection \<open>Menus and buttons (menus.js, menu-button.js)\<close>

type_synonym button = nat

record menu =
  buttons :: "button list"
  hide :: string
  scanType :: string

text \<open>
  The configuration the scanner runs on: the registry of menus by name (\<open>allMenus\<close>), the
  main menu given to \<open>scanner\<close>, for each button object its type tag, the name of its
  target menu (\<open>dataset.target\<close>) and its wait multiplier, and the scan speed in ms.
  A button is known by its identity, as \<open>===\<close> compares it; a menu by its name in the
  registry, where a name that the registry does not hold stands for \<open>undefined\<close>.
\<close>

record world =
  menus :: "string \<Rightarrow> menu option"
  mainMenu :: string
  buttonType :: "button \<Rightarrow> string"
  target :: "button \<Rightarrow> string"
  waitMultiplier :: "button \<Rightarrow> nat"
  scanSpeed :: nat

subsection \<open>Constants of scanner.js\<close>

definition N_LOOPS :: nat where "N_LOOPS = 2"
definition SHORT_GAZE_TIME :: nat where "SHORT_GAZE_TIME = 200"
definition LONG_GAZE_TIME :: nat where "LONG_GAZE_TIME = 2000"
definition BEEP_DURATION :: nat where "BEEP_DURATION = 250"
definition BEEP_FREQ :: nat where "BEEP_FREQ = 300"

subsection \<open>Callbacks, closures, effects\<close>

text \<open>
  The callbacks that scanner.js passes around:
  \<^item> \<open>Listen\<close> is the function \<open>listen\<close>, the callback of the top-level scan;
  \<^item> \<open>ScanMenuAgain m cb\<close> is \<open>() => scanMenu(menu, cb)\<close>;
  \<^item> \<open>AfterTarget b bcb\<close> is the closure \<open>afterTarget\<close> of \<open>makeButtonCallback\<close>;
  \<^item> \<open>ScanTarget b bcb\<close> is \<open>() => scanMenu(button.getTargetMenu(), afterTarget)\<close>,
    with \<open>afterTarget = AfterTarget b bcb\<close>.
\<close>

datatype cont =
    Listen
  | ScanMenuAgain string cont
  | AfterTarget button cont
  | ScanTarget button cont

text \<open>A set of three listeners belongs to one call of \<open>scanMenu\<close> or of \<open>listen\<close>.\<close>

datatype listener = ScanMenuL nat | ListenL nat

datatype timer_action = SignalLongGaze | Next nat button nat nat

datatype error = TypeError

datatype effect =
    AddListeners listener
  | RemoveListeners listener
  | Toggle button
  | Announce button
  | Pressed button
  | AddFinishedListener button cont
  | Beep nat nat
  | IdleMode
  | ListenMode
  | ScanMode
  | SpeakSync string
  | SlideUp string
  | Invoke cont
  | Throw error

text \<open>The state variables of one call of \<open>scanMenu(menu, cb)\<close>; \<open>None\<close> is \<open>undefined\<close>.\<close>

record session =
  s_menu :: string
  s_cb :: cont
  currentButton :: "button option"
  gazeButton :: "button option"
  startTime :: "nat option"
  timeout :: "nat option"
  longGazeTimeout :: "nat option"

text \<open>The state variables of one call of \<open>listen()\<close>.\<close>

record listening =
  l_startTime :: "nat option"
  l_longGazeTimeout :: "nat option"

record state =
  now :: nat
  sessions :: "nat \<Rightarrow> session"
  listens :: "nat \<Rightarrow> listening"
  nextClosure :: nat
  beginListeners :: "listener list"
  endListeners :: "listener list"
  clickListeners :: "listener list"
  finishedListeners :: "(button \<times> cont) list"
  timers :: "nat \<Rightarrow> (nat \<times> timer_action) option"
  nextTimer :: nat
  buttonEmpty :: "button \<Rightarrow> bool"
  buttonOn :: "button \<Rightarrow> bool"
  trace :: "effect list"

subsection \<open>Primitives of the runtime and of the collaborators\<close>

definition emit :: "effect \<Rightarrow> state \<Rightarrow> state" where
  "emit e st = st\<lparr>trace := trace st @ [e]\<rparr>"

text \<open>An exception ends the handler that is running: the state stays as it is then.\<close>

definition throw :: "error \<Rightarrow> state \<Rightarrow> state" where
  "throw e st = emit (Throw e) st"

text \<open>\<open>setTimeout\<close> hands out the handle \<open>nextTimer st\<close>.\<close>

definition setTimeout :: "timer_action \<Rightarrow> nat \<Rightarrow> state \<Rightarrow> state" where
  "setTimeout a delay st =
     st\<lparr>timers := (timers st)(nextTimer st \<mapsto> (now st + delay, a)),
        nextTimer := Suc (nextTimer st)\<rparr>"

definition clearTimeout :: "nat option \<Rightarrow> state \<Rightarrow> state" where
  "clearTimeout h st =
     (case h of None \<Rightarrow> st | Some i \<Rightarrow> st\<lparr>timers := (timers st)(i := None)\<rparr>)"

text \<open>
  \<open>EventEmitter.addListener\<close> appends, \<open>removeListener\<close> takes the most recently added
  instance away; the DOM's \<open>addEventListener\<close> ignores a listener it already holds.
\<close>

definition addListener :: "listener \<Rightarrow> listener list \<Rightarrow> listener list" where
  "addListener l ls = ls @ [l]"

definition removeListener :: "listener \<Rightarrow> listener list \<Rightarrow> listener list" where
  "removeListener l ls = rev (remove1 l (rev ls))"

definition addEventListener :: "listener \<Rightarrow> listener list \<Rightarrow> listener list" where
  "addEventListener l ls = (if l \<in> set ls then ls else ls @ [l])"

definition removeEventListener :: "listener \<Rightarrow> listener list \<Rightarrow> listener list" where
  "removeEventListener l ls = remove1 l ls"

definition registerListeners :: "listener \<Rightarrow> state \<Rightarrow> state" where
  "registerListeners l st =
     emit (AddListeners l)
       (st\<lparr>beginListeners := addListener l (beginListeners st),
           endListeners := addListener l (endListeners st),
           clickListeners := addEventListener l (clickListeners st)\<rparr>)"

definition unregisterListeners :: "listener \<Rightarrow> state \<Rightarrow> state" where
  "unregisterListeners l st =
     emit (RemoveListeners l)
       (st\<lparr>clickListeners := removeEventListener l (clickListeners st),
           beginListeners := removeListener l (beginListeners st),
           endListeners := removeListener l (endListeners st)\<rparr>)"

definition signalLongGaze :: "state \<Rightarrow> state" where
  "signalLongGaze st = emit (Beep BEEP_FREQ BEEP_DURATION) st"

definition toggle :: "button \<Rightarrow> state \<Rightarrow> state" where
  "toggle b st = emit (Toggle b) (st\<lparr>buttonOn := (buttonOn st)(b := \<not> buttonOn st b)\<rparr>)"

definition announce :: "button \<Rightarrow> state \<Rightarrow> state" where
  "announce b st = emit (Announce b) st"

definition addFinishedListener :: "button \<Rightarrow> cont \<Rightarrow> state \<Rightarrow> state" where
  "addFinishedListener b c st =
     emit (AddFinishedListener b c) (st\<lparr>finishedListeners := finishedListeners st @ [(b, c)]\<rparr>)"

text \<open>
  \<open>button.pressed()\<close> starts the action of the button; the action ends, at once or later,
  with the \<open>buttonFinished\<close> event, which is an event of the model.
\<close>

definition pressed :: "button \<Rightarrow> state \<Rightarrow> state" where
  "pressed b st = emit (Pressed b) st"

definition getButton :: "button list \<Rightarrow> nat \<Rightarrow> button option" where
  "getButton bs ix = (if ix < length bs then Some (bs ! ix) else None)"

definition selectsDropdownMenu :: "world \<Rightarrow> button \<Rightarrow> error + bool" where
  "selectsDropdownMenu w b =
     (if buttonType w b = ''menuSelector''
      then (case menus w (target w b) of
              None \<Rightarrow> Inl TypeError
            | Some tm \<Rightarrow> Inr (hide tm = ''dropdown''))
      else Inr False)"

subsection \<open>scanMenu\<close>

definition nextButton :: "menu \<Rightarrow> nat \<Rightarrow> nat" where
  "nextButton m ix = (ix + 1) mod length (buttons m)"

definition isLastButton :: "menu \<Rightarrow> nat \<Rightarrow> bool" where
  "isLastButton m buttonIx = (int buttonIx = int (length (buttons m)) - 1)"

definition nextLoop :: "menu \<Rightarrow> nat \<Rightarrow> nat \<Rightarrow> nat" where
  "nextLoop m buttonIx loopIx = (if isLastButton m buttonIx then loopIx + 1 else loopIx)"

definition isLoopOver :: "nat \<Rightarrow> bool" where
  "isLoopOver loopIx = (loopIx = N_LOOPS)"

definition getWaitTime :: "world \<Rightarrow> button \<Rightarrow> nat" where
  "getWaitTime w b = scanSpeed w * waitMultiplier w b"

definition register :: "nat \<Rightarrow> state \<Rightarrow> state" where
  "register sid st = registerListeners (ScanMenuL sid) st"

definition unregister :: "nat \<Rightarrow> state \<Rightarrow> state" where
  "unregister sid st = unregisterListeners (ScanMenuL sid) st"

definition gazeBegin :: "nat \<Rightarrow> state \<Rightarrow> state" where
  "gazeBegin sid st =
     (let s = sessions st sid;
          h = nextTimer st;
          st1 = setTimeout SignalLongGaze LONG_GAZE_TIME st
      in st1\<lparr>sessions := (sessions st1)
               (sid := s\<lparr>gazeButton := currentButton s,
                         startTime := Some (now st),
                         longGazeTimeout := Some h\<rparr>)\<rparr>)"

text \<open>\<open>new Date() - startTime\<close> is \<open>NaN\<close> (here \<open>None\<close>) while \<open>startTime\<close> is undefined;
  every comparison with \<open>NaN\<close> is false.\<close>

definition elapsedSince :: "nat \<Rightarrow> nat option \<Rightarrow> int option" where
  "elapsedSince t start = (case start of None \<Rightarrow> None | Some t0 \<Rightarrow> Some (int t - int t0))"

definition num_ge :: "int option \<Rightarrow> nat \<Rightarrow> bool" where
  "num_ge x c = (case x of None \<Rightarrow> False | Some v \<Rightarrow> v \<ge> int c)"

definition num_lt :: "int option \<Rightarrow> nat \<Rightarrow> bool" where
  "num_lt x c = (case x of None \<Rightarrow> False | Some v \<Rightarrow> v < int c)"

definition makeButtonCallback :: "world \<Rightarrow> string \<Rightarrow> cont \<Rightarrow> button \<Rightarrow> error + cont" where
  "makeButtonCallback w m cb b =
     (case menus w m of
        None \<Rightarrow> Inl TypeError
      | Some mn \<Rightarrow>
          (let bcb = (if scanType mn = ''repeat'' then ScanMenuAgain m cb else cb)
           in if buttonType w b = ''menuSelector'' then Inr (ScanTarget b bcb) else Inr bcb))"

text \<open>\<open>pressButton(button)\<close>; the argument is \<open>gazeButton\<close>, which may be undefined.\<close>

definition pressButton :: "world \<Rightarrow> nat \<Rightarrow> button option \<Rightarrow> state \<Rightarrow> state" where
  "pressButton w sid button st =
     (let s = sessions st sid;
          st1 = unregister sid st
      in case button of
           None \<Rightarrow> throw TypeError st1
         | Some b \<Rightarrow>
             (let st2 = (if currentButton s = gazeButton s then toggle b st1 else st1)
              in case makeButtonCallback w (s_menu s) (s_cb s) b of
                   Inl e \<Rightarrow> throw e st2
                 | Inr bcb \<Rightarrow> pressed b (addFinishedListener b bcb st2)))"

definition step :: "world \<Rightarrow> nat \<Rightarrow> button \<Rightarrow> nat \<Rightarrow> nat \<Rightarrow> state \<Rightarrow> state" where
  "step w sid button buttonIx loopIx st =
     (let st1 = st\<lparr>sessions := (sessions st)
                    (sid := (sessions st sid)\<lparr>currentButton := Some button\<rparr>)\<rparr>;
          st2 = announce button (toggle button st1);
          waitTime = getWaitTime w button;
          h = nextTimer st2;
          st3 = setTimeout (Next sid button buttonIx loopIx) waitTime st2
      in st3\<lparr>sessions := (sessions st3) (sid := (sessions st3 sid)\<lparr>timeout := Some h\<rparr>)\<rparr>)"

text \<open>
  \<open>loop\<close> calls itself on an empty button and calls \<open>cb\<close> when the loops are over. The call
  of \<open>cb\<close> is the parameter \<open>k\<close> here, so that the functions below can be defined one
  after the other; \<open>None\<close> is a recursion that never returns.
\<close>

partial_function (option) loopK ::
  "world \<Rightarrow> (state \<Rightarrow> state option) \<Rightarrow> nat \<Rightarrow> nat \<Rightarrow> nat \<Rightarrow> state \<Rightarrow> state option" where
  "loopK w k sid buttonIx loopIx st =
     (case menus w (s_menu (sessions st sid)) of
        None \<Rightarrow> Some (throw TypeError st)
      | Some m \<Rightarrow>
          if isLoopOver loopIx then k (unregister sid st)
          else (case getButton (buttons m) buttonIx of
                  None \<Rightarrow> Some (throw TypeError st)
                | Some button \<Rightarrow>
                    if buttonEmpty st button then loopK w k sid 0 (loopIx + 1) st
                    else Some (step w sid button buttonIx loopIx st)))"

declare loopK.simps [code]

text \<open>A call of \<open>scanMenu(menu, cb)\<close> makes a closure; its state variables are undefined.\<close>

definition newSession :: "string \<Rightarrow> cont \<Rightarrow> state \<Rightarrow> state" where
  "newSession m cb st =
     st\<lparr>sessions := (sessions st)
          (nextClosure st :=
             \<lparr>s_menu = m, s_cb = cb, currentButton = None, gazeButton = None,
              startTime = None, timeout = None, longGazeTimeout = None\<rparr>),
        nextClosure := Suc (nextClosure st)\<rparr>"

definition scanMenuK ::
  "world \<Rightarrow> (state \<Rightarrow> state option) \<Rightarrow> string \<Rightarrow> cont \<Rightarrow> state \<Rightarrow> state option" where
  "scanMenuK w k m cb st =
     (let sid = nextClosure st
      in loopK w k sid 0 0 (register sid (newSession m cb st)))"

text \<open>
  The closure \<open>afterTarget\<close> of \<open>makeButtonCallback(button)\<close>, where \<open>k\<close> is the call of
  \<open>bcb\<close>. Every call of a callback is recorded in the trace.
\<close>

definition afterTargetK ::
  "world \<Rightarrow> button \<Rightarrow> cont \<Rightarrow> (state \<Rightarrow> state option) \<Rightarrow> state \<Rightarrow> state option" where
  "afterTargetK w b bcb k st =
     (let st1 = emit (Invoke (AfterTarget b bcb)) st
      in case selectsDropdownMenu w b of
           Inl e \<Rightarrow> Some (throw e st1)
         | Inr sel \<Rightarrow> if sel then k (emit (SlideUp (target w b)) st1) else k st1)"

text \<open>\<open>listen()\<close>: announce, set the detector to listen, register the listeners.\<close>

definition listen :: "state \<Rightarrow> state" where
  "listen st =
     (let st1 = emit ListenMode (emit (SpeakSync ''listening.'') st);
          lid = nextClosure st1;
          st2 = st1\<lparr>listens := (listens st1)
                     (lid := \<lparr>l_startTime = None, l_longGazeTimeout = None\<rparr>),
                   nextClosure := Suc lid\<rparr>
      in registerListeners (ListenL lid) st2)"

text \<open>Calling a callback.\<close>

primrec callCont :: "world \<Rightarrow> cont \<Rightarrow> state \<Rightarrow> state option" where
  "callCont w Listen = (\<lambda>st. Some (listen (emit (Invoke Listen) st)))"
| "callCont w (ScanMenuAgain m cb) =
     (\<lambda>st. scanMenuK w (callCont w cb) m cb (emit (Invoke (ScanMenuAgain m cb)) st))"
| "callCont w (AfterTarget b bcb) = afterTargetK w b bcb (callCont w bcb)"
| "callCont w (ScanTarget b bcb) =
     (\<lambda>st. scanMenuK w (afterTargetK w b bcb (callCont w bcb)) (target w b) (AfterTarget b bcb)
             (emit (Invoke (ScanTarget b bcb)) st))"

definition loop :: "world \<Rightarrow> nat \<Rightarrow> nat \<Rightarrow> nat \<Rightarrow> state \<Rightarrow> state option" where
  "loop w sid buttonIx loopIx st =
     loopK w (callCont w (s_cb (sessions st sid))) sid buttonIx loopIx st"

definition scanMenu :: "world \<Rightarrow> string \<Rightarrow> cont \<Rightarrow> state \<Rightarrow> state option" where
  "scanMenu w m cb st = scanMenuK w (callCont w cb) m cb st"

text \<open>The closure \<open>next\<close> of \<open>step\<close>, run by the timer.\<close>

definition next_step :: "world \<Rightarrow> nat \<Rightarrow> button \<Rightarrow> nat \<Rightarrow> nat \<Rightarrow> state \<Rightarrow> state option" where
  "next_step w sid button buttonIx loopIx st =
     (let st1 = toggle button st
      in case menus w (s_menu (sessions st1 sid)) of
           None \<Rightarrow> Some (throw TypeError st1)
         | Some m \<Rightarrow> loop w sid (nextButton m buttonIx) (nextLoop m buttonIx loopIx) st1)"

text \<open>The part of \<open>gazeEnd\<close> after the step timer is cleared and the highlight is fixed.\<close>

definition gazeEndAct :: "world \<Rightarrow> nat \<Rightarrow> int option \<Rightarrow> state \<Rightarrow> state option" where
  "gazeEndAct w sid elapsed st =
     (let s = sessions st sid
      in if num_lt elapsed LONG_GAZE_TIME then Some (pressButton w sid (gazeButton s) st)
         else callCont w (s_cb s) (unregister sid st))"

definition gazeEnd :: "world \<Rightarrow> nat \<Rightarrow> state \<Rightarrow> state option" where
  "gazeEnd w sid st =
     (let s = sessions st sid;
          st1 = clearTimeout (longGazeTimeout s) st;
          elapsed = elapsedSince (now st) (startTime s)
      in if num_ge elapsed SHORT_GAZE_TIME then
           (let st2 = clearTimeout (timeout s) st1
            in if currentButton s \<noteq> gazeButton s then
                 (case currentButton s of
                    None \<Rightarrow> Some (throw TypeError st2)
                  | Some c \<Rightarrow> gazeEndAct w sid elapsed (toggle c st2))
               else gazeEndAct w sid elapsed st2)
         else Some st1)"

definition pressStop :: "nat \<Rightarrow> state \<Rightarrow> state" where
  "pressStop sid st =
     (let s = sessions st sid;
          st1 = unregister sid st
      in case currentButton s of
           None \<Rightarrow> throw TypeError st1
         | Some c \<Rightarrow>
             emit (SpeakSync ''stopping.'')
               (emit IdleMode (clearTimeout (timeout s) (toggle c st1))))"

subsection \<open>listen and scan\<close>

definition scan :: "world \<Rightarrow> state \<Rightarrow> state option" where
  "scan w st = scanMenu w (mainMenu w) Listen (emit ScanMode st)"

definition l_gazeBegin :: "nat \<Rightarrow> state \<Rightarrow> state" where
  "l_gazeBegin lid st =
     (let h = nextTimer st;
          st1 = setTimeout SignalLongGaze LONG_GAZE_TIME st
      in st1\<lparr>listens := (listens st1)
               (lid := \<lparr>l_startTime = Some (now st), l_longGazeTimeout = Some h\<rparr>)\<rparr>)"

definition l_gazeEnd :: "world \<Rightarrow> nat \<Rightarrow> state \<Rightarrow> state option" where
  "l_gazeEnd w lid st =
     (let l = listens st lid;
          st1 = clearTimeout (l_longGazeTimeout l) st;
          elapsed = elapsedSince (now st) (l_startTime l)
      in if num_ge elapsed LONG_GAZE_TIME
         then scan w (unregisterListeners (ListenL lid) st1)
         else Some st1)"

definition l_pressStop :: "nat \<Rightarrow> state \<Rightarrow> state" where
  "l_pressStop lid st =
     emit IdleMode (unregisterListeners (ListenL lid) (emit (SpeakSync ''stopping.'') st))"

subsection \<open>The event loop\<close>

datatype event =
    GestureBegin
  | GestureEnd
  | StopClick
  | TimerFire nat
  | ButtonFinished button
  | ButtonValue button bool

text \<open>An event reaches the listeners registered when it is emitted, in their order.\<close>

fun deliver :: "(listener \<Rightarrow> state \<Rightarrow> state option) \<Rightarrow> listener list \<Rightarrow> state \<Rightarrow> state option" where
  "deliver h [] st = Some st"
| "deliver h (l # ls) st = (case h l st of None \<Rightarrow> None | Some st' \<Rightarrow> deliver h ls st')"

fun onBegin :: "listener \<Rightarrow> state \<Rightarrow> state option" where
  "onBegin (ScanMenuL sid) st = Some (gazeBegin sid st)"
| "onBegin (ListenL lid) st = Some (l_gazeBegin lid st)"

fun onEnd :: "world \<Rightarrow> listener \<Rightarrow> state \<Rightarrow> state option" where
  "onEnd w (ScanMenuL sid) st = gazeEnd w sid st"
| "onEnd w (ListenL lid) st = l_gazeEnd w lid st"

fun onClick :: "listener \<Rightarrow> state \<Rightarrow> state option" where
  "onClick (ScanMenuL sid) st = Some (pressStop sid st)"
| "onClick (ListenL lid) st = Some (l_pressStop lid st)"

fun runTimer :: "world \<Rightarrow> timer_action \<Rightarrow> state \<Rightarrow> state option" where
  "runTimer w SignalLongGaze st = Some (signalLongGaze st)"
| "runTimer w (Next sid button buttonIx loopIx) st = next_step w sid button buttonIx loopIx st"

fun callAll :: "world \<Rightarrow> cont list \<Rightarrow> state \<Rightarrow> state option" where
  "callAll w [] st = Some st"
| "callAll w (c # cs) st = (case callCont w c st of None \<Rightarrow> None | Some st' \<Rightarrow> callAll w cs st')"

text \<open>
  One turn of the event loop at time \<open>t\<close>. A timer runs once, when it is due; the
  \<open>buttonFinished\<close> listeners of a button are one-shot (\<open>once\<close>).
\<close>

fun fire :: "world \<Rightarrow> nat \<times> event \<Rightarrow> state \<Rightarrow> state option" where
  "fire w (t, GestureBegin) st = deliver onBegin (beginListeners st) (st\<lparr>now := t\<rparr>)"
| "fire w (t, GestureEnd) st = deliver (onEnd w) (endListeners st) (st\<lparr>now := t\<rparr>)"
| "fire w (t, StopClick) st = deliver onClick (clickListeners st) (st\<lparr>now := t\<rparr>)"
| "fire w (t, TimerFire i) st =
     (case timers st i of
        None \<Rightarrow> Some (st\<lparr>now := t\<rparr>)
      | Some (due, a) \<Rightarrow>
          if due \<le> t then runTimer w a (st\<lparr>now := t, timers := (timers st)(i := None)\<rparr>)
          else Some (st\<lparr>now := t\<rparr>))"
| "fire w (t, ButtonFinished b) st =
     callAll w (map snd (filter (\<lambda>p. fst p = b) (finishedListeners st)))
       (st\<lparr>now := t, finishedListeners := filter (\<lambda>p. fst p \<noteq> b) (finishedListeners st)\<rparr>)"
| "fire w (t, ButtonValue b e) st = Some (st\<lparr>now := t, buttonEmpty := (buttonEmpty st)(b := e)\<rparr>)"

fun run :: "world \<Rightarrow> (nat \<times> event) list \<Rightarrow> state \<Rightarrow> state option" where
  "run w [] st = Some st"
| "run w (e # es) st = (case fire w e st of None \<Rightarrow> None | Some st' \<Rightarrow> run w es st')"




text \<open>The state before the start button is clicked: nothing registered, nothing pending.\<close>

definition initial :: "(button \<Rightarrow> bool) \<Rightarrow> state" where
  "initial em =
     \<lparr>now = 0,
      sessions = (\<lambda>_. \<lparr>s_menu = [], s_cb = Listen, currentButton = None, gazeButton = None,
                        startTime = None, timeout = None, longGazeTimeout = None\<rparr>),
      listens = (\<lambda>_. \<lparr>l_startTime = None, l_longGazeTimeout = None\<rparr>),
      nextClosure = 0,
      beginListeners = [], endListeners = [], clickListeners = [],
      finishedListeners = [],
      timers = Map.empty, nextTimer = 0,
      buttonEmpty = em, buttonOn = (\<lambda>_. False),
      trace = []\<rparr>"

subsection \<open>Invariants of the event loop\<close>

text \<open>
  The listener sets that are registered after the calls recorded in a trace, and the
  property that at no moment of the trace two sets were registered.
\<close>

fun liveStep :: "listener list \<Rightarrow> effect \<Rightarrow> listener list" where
  "liveStep ls (AddListeners l) = addListener l ls"
| "liveStep ls (RemoveListeners l) = removeListener l ls"
| "liveStep ls _ = ls"

definition live :: "effect list \<Rightarrow> listener list" where
  "live xs = foldl liveStep [] xs"

definition oneAtATime :: "effect list \<Rightarrow> bool" where
  "oneAtATime xs = list_all (\<lambda>n. length (live (take n xs)) \<le> 1) [0..<Suc (length xs)]"

text \<open>The same for the calls \<open>es\<close> made while the sets \<open>ls\<close> are registered.\<close>

fun within :: "listener list \<Rightarrow> effect list \<Rightarrow> bool" where
  "within ls [] = True"
| "within ls (e # es) = (length (liveStep ls e) \<le> 1 \<and> within (liveStep ls e) es)"

fun closureId :: "listener \<Rightarrow> nat" where
  "closureId (ScanMenuL sid) = sid"
| "closureId (ListenL lid) = lid"

text \<open>
  The three registries hold the same listener sets; at most one set is registered, and
  none while a pressed button has yet to finish; the trace agrees with the registries.
\<close>

definition inv_listeners :: "state \<Rightarrow> bool" where
  "inv_listeners st =
     (endListeners st = beginListeners st \<and> clickListeners st = beginListeners st \<and>
      length (beginListeners st) + length (finishedListeners st) \<le> 1 \<and>
      (\<forall>l \<in> set (beginListeners st). closureId l < nextClosure st) \<and>
      live (trace st) = beginListeners st \<and> oneAtATime (trace st))"

text \<open>
  A pending step timer belongs to the session that is registered, which holds its
  handle in \<open>timeout\<close> and its button in \<open>currentButton\<close>; handles are below
  \<open>nextTimer\<close>.
\<close>

definition inv_timers :: "state \<Rightarrow> bool" where
  "inv_timers st =
     ((\<forall>i d sid b bi li. timers st i = Some (d, Next sid b bi li) \<longrightarrow>
          beginListeners st = [ScanMenuL sid] \<and> timeout (sessions st sid) = Some i \<and>
          currentButton (sessions st sid) = Some b \<and> li < N_LOOPS) \<and>
      (\<forall>i. timers st i \<noteq> None \<longrightarrow> i < nextTimer st))"

definition inv_sessions :: "world \<Rightarrow> state \<Rightarrow> bool" where
  "inv_sessions w st =
     ((\<forall>sid i. timeout (sessions st sid) = Some i \<longrightarrow> i < nextTimer st) \<and>
      (\<forall>sid i. longGazeTimeout (sessions st sid) = Some i \<longrightarrow>
          i < nextTimer st \<and> (\<forall>d a. timers st i = Some (d, a) \<longrightarrow> a = SignalLongGaze)) \<and>
      (\<forall>lid i. l_longGazeTimeout (listens st lid) = Some i \<longrightarrow> i < nextTimer st) \<and>
      (\<forall>sid. startTime (sessions st sid) = None \<longrightarrow> longGazeTimeout (sessions st sid) = None) \<and>
      (\<forall>sid. currentButton (sessions st sid) = None \<longrightarrow> gazeButton (sessions st sid) = None) \<and>
      (\<forall>sid. currentButton (sessions st sid) \<noteq> None \<longrightarrow>
          menus w (s_menu (sessions st sid)) \<noteq> None))"

definition inv :: "world \<Rightarrow> state \<Rightarrow> bool" where
  "inv w st = (inv_listeners st \<and> inv_timers st \<and> inv_sessions w st)"

text \<open>
  Timer \<open>i\<close> has been handed out, is not the step timer of any session, and is the
  long-gaze timer of no closure other than the sessions in \<open>S\<close>.
\<close>

definition handleFree :: "nat \<Rightarrow> nat set \<Rightarrow> state \<Rightarrow> bool" where
  "handleFree i S st =
     (i < nextTimer st \<and>
      (\<forall>sid. timeout (sessions st sid) \<noteq> Some i) \<and>
      (\<forall>sid. sid \<notin> S \<longrightarrow> longGazeTimeout (sessions st sid) \<noteq> Some i) \<and>
      (\<forall>lid. l_longGazeTimeout (listens st lid) \<noteq> Some i))"

text \<open>The buttons pressed in a trace, in order.\<close>

fun presses :: "effect list \<Rightarrow> button list" where
  "presses [] = []"
| "presses (Pressed b # es) = b # presses es"
| "presses (e # es) = presses es"

text \<open>
  What a callback called while nothing is registered and no button is pending leaves
  untouched: the closures and timers that exist; it registers listeners of new closures
  only, it adds to the trace, and it presses no button.
\<close>

definition idle :: "world \<Rightarrow> state \<Rightarrow> bool" where
  "idle w st = (inv w st \<and> beginListeners st = [] \<and> finishedListeners st = [])"

definition frame :: "state \<Rightarrow> state \<Rightarrow> bool" where
  "frame st st' =
     (nextClosure st \<le> nextClosure st' \<and> nextTimer st \<le> nextTimer st' \<and>
      (\<forall>sid < nextClosure st. sessions st' sid = sessions st sid) \<and>
      (\<forall>i < nextTimer st. timers st' i = timers st i) \<and>
      (\<forall>i S. handleFree i S st \<longrightarrow> handleFree i S st') \<and>
      (\<forall>l \<in> set (beginListeners st').
          l \<in> set (beginListeners st) \<or> nextClosure st \<le> closureId l) \<and>
      prefix (trace st) (trace st') \<and> presses (trace st') = presses (trace st))"

definition returns :: "world \<Rightarrow> (state \<Rightarrow> state option) \<Rightarrow> bool" where
  "returns w k = (\<forall>st. idle w st \<longrightarrow> (\<exists>st'. k st = Some st' \<and> inv w st' \<and> frame st st'))"

text \<open>No step timer is pending; one set of listeners is registered and no step timer
  is pending.\<close>

definition noNext :: "state \<Rightarrow> bool" where
  "noNext st = (\<forall>i d a. timers st i = Some (d, a) \<longrightarrow> a = SignalLongGaze)"

definition quiet :: "world \<Rightarrow> listener \<Rightarrow> state \<Rightarrow> bool" where
  "quiet w l st = (inv w st \<and> beginListeners st = [l] \<and> noNext st)"

text \<open>
  What every handler but \<open>gazeBegin\<close> keeps: closures and timers are only added, apart
  from the timers in \<open>U\<close>, which may be gone, and the variables of the sessions that
  record a gesture stay as they are.
\<close>

definition keeps :: "nat set \<Rightarrow> state \<Rightarrow> state \<Rightarrow> bool" where
  "keeps U st st' =
     (nextClosure st \<le> nextClosure st' \<and> nextTimer st \<le> nextTimer st' \<and>
      (\<forall>sid < nextClosure st.
         gazeButton (sessions st' sid) = gazeButton (sessions st sid) \<and>
         startTime (sessions st' sid) = startTime (sessions st sid) \<and>
         s_menu (sessions st' sid) = s_menu (sessions st sid) \<and>
         s_cb (sessions st' sid) = s_cb (sessions st sid)) \<and>
      (\<forall>i < nextTimer st. i \<notin> U \<longrightarrow> timers st' i = timers st i) \<and>
      (\<forall>i S. handleFree i S st \<longrightarrow> handleFree i S st') \<and>
      (\<forall>l \<in> set (beginListeners st').
          l \<in> set (beginListeners st) \<or> nextClosure st \<le> closureId l))"

text \<open>Nothing is registered and no step timer is pending: the scanner has stopped.\<close>

definition halted :: "state \<Rightarrow> bool" where
  "halted st =
     (beginListeners st = [] \<and> endListeners st = [] \<and> clickListeners st = [] \<and>
      finishedListeners st = [] \<and> noNext st)"

text \<open>The callbacks called in a trace, in order.\<close>

fun invokes :: "effect list \<Rightarrow> cont list" where
  "invokes [] = []"
| "invokes (Invoke c # es) = c # invokes es"
| "invokes (e # es) = invokes es"

subsection \<open>A scan that receives no gesture and no stop\<close>

text \<open>
  The only events are the step timers of the session, each run when it is due, until
  the session has none pending. \<open>None\<close> is a scan that never ends.
\<close>

partial_function (option) sweep :: "world \<Rightarrow> nat \<Rightarrow> state \<Rightarrow> state option" where
  "sweep w sid st =
     (case timeout (sessions st sid) of
        None \<Rightarrow> Some st
      | Some i \<Rightarrow>
          (case timers st i of
             None \<Rightarrow> Some st
           | Some p \<Rightarrow>
               (case fire w (max (fst p) (now st), TimerFire i) st of
                  None \<Rightarrow> None
                | Some st' \<Rightarrow> sweep w sid st')))"

declare sweep.simps [code]

text \<open>The same scan when at most \<open>n\<close> of its step timers have run.\<close>

fun sweepN :: "world \<Rightarrow> nat \<Rightarrow> nat \<Rightarrow> state \<Rightarrow> state option" where
  "sweepN w sid 0 st = Some st"
| "sweepN w sid (Suc n) st =
     (case timeout (sessions st sid) of
        None \<Rightarrow> Some st
      | Some i \<Rightarrow>
          (case timers st i of
             None \<Rightarrow> Some st
           | Some p \<Rightarrow>
               (case fire w (max (fst p) (now st), TimerFire i) st of
                  None \<Rightarrow> None
                | Some st' \<Rightarrow> sweepN w sid n st')))"

text \<open>What the scan does on one button, and the buttons before the first empty one.\<close>

definition visit :: "button \<Rightarrow> effect list" where
  "visit b = [Toggle b, Announce b, Toggle b]"

definition scanned :: "(button \<Rightarrow> bool) \<Rightarrow> button list \<Rightarrow> button list" where
  "scanned em bs = takeWhile (\<lambda>b. \<not> em b) bs"

subsection \<open>A configuration to run the model on\<close>

text \<open>
  A main menu of three buttons that repeats, whose first button selects a dropdown menu
  of two buttons, and a menu without buttons; the scan started on the main menu with
  \<open>listen\<close> as its callback, as \<open>scan()\<close> starts it.
\<close>

definition demoWorld :: world where
  "demoWorld =
     \<lparr>menus = (\<lambda>n. if n = ''main''
                     then Some \<lparr>buttons = [0, 1, 2], hide = ''commboard'', scanType = ''repeat''\<rparr>
                     else if n = ''sub''
                     then Some \<lparr>buttons = [3, 4], hide = ''dropdown'', scanType = ''finish''\<rparr>
                     else if n = ''none''
                     then Some \<lparr>buttons = [], hide = ''commboard'', scanType = ''finish''\<rparr>
                     else None),
      mainMenu = ''main'',
      buttonType = (\<lambda>b. if b = 0 then ''menuSelector'' else ''letter''),
      target = (\<lambda>b. ''sub''),
      waitMultiplier = (\<lambda>b. 1),
      scanSpeed = 1000\<rparr>"

definition demoStart :: state where
  "demoStart = the (scanMenu demoWorld ''main'' Listen (initial (\<lambda>b. False)))"

text \<open>The same scan 100 ms later, when a gesture has begun on the first button.\<close>

definition demoGazing :: state where
  "demoGazing = the (fire demoWorld (100, GestureBegin) demoStart)"

text \<open>Button values: no button is empty; only the second button of the main menu is.\<close>

definition noneEmpty :: "button \<Rightarrow> bool" where
  "noneEmpty b = False"

definition secondEmpty :: "button \<Rightarrow> bool" where
  "secondEmpty b = (b = 1)"

text \<open>
  The same menus at a scan speed of three seconds. The scan of the main menu is left by a
  long gaze that begins and ends on the first button, \<open>listen\<close> is answered by a second
  long gaze, and the main menu is scanned again: \<open>stuckScan\<close> is the state 4400 ms after
  the start, when the first button has just been announced.
\<close>

definition slowWorld :: world where
  "slowWorld = demoWorld\<lparr>scanSpeed := 3000\<rparr>"

definition stuckScan :: state where
  "stuckScan =
     the (Option.bind (scanMenu slowWorld ''main'' Listen (initial noneEmpty))
            (run slowWorld [(100, GestureBegin), (2100, TimerFire 1), (2200, GestureEnd),
                            (2300, GestureBegin), (4300, TimerFire 2), (4400, GestureEnd)]))"

section \<open>Lemmas\<close>

lemma live_snoc: "live (xs @ [e]) = liveStep (live xs) e"
  by (simp add: live_def)

lemma live_Nil: "live [] = []"
  by (simp add: live_def)

lemma oneAtATime_Nil: "oneAtATime []"
  by (simp add: oneAtATime_def live_def)

lemma oneAtATime_snoc:
  "oneAtATime (xs @ [e]) = (oneAtATime xs \<and> length (live (xs @ [e])) \<le> 1)"
  by (auto simp: oneAtATime_def list_all_iff less_Suc_eq_le le_Suc_eq)

lemma live_append: "live (xs @ ys) = foldl liveStep (live xs) ys"
  by (simp add: live_def)

lemma oneAtATime_append: "oneAtATime (xs @ ys) = (oneAtATime xs \<and> within (live xs) ys)"
proof (induction ys arbitrary: xs)
  case Nil
  then show ?case by simp
next
  case (Cons e es)
  have "oneAtATime (xs @ e # es) = oneAtATime ((xs @ [e]) @ es)" by simp
  also have "\<dots> = (oneAtATime (xs @ [e]) \<and> within (live (xs @ [e])) es)"
    by (rule Cons.IH)
  finally show ?case by (auto simp: oneAtATime_snoc live_snoc)
qed

lemma loopK_nomenu:
  "menus w (s_menu (sessions st sid)) = None \<Longrightarrow> loopK w k sid bi li st = Some (throw TypeError st)"
  by (subst loopK.simps) simp

lemma loopK_over:
  "menus w (s_menu (sessions st sid)) = Some m \<Longrightarrow> loopK w k sid bi N_LOOPS st = k (unregister sid st)"
  by (subst loopK.simps) (simp add: isLoopOver_def)

lemma loopK_cases:
  assumes "li \<le> N_LOOPS" and "menus w (s_menu (sessions st sid)) = Some m"
  shows "loopK w k sid bi li st = k (unregister sid st) \<or>
         loopK w k sid bi li st = Some (throw TypeError st) \<or>
         (\<exists>b bi' li'. li' < N_LOOPS \<and> getButton (buttons m) bi' = Some b \<and> \<not> buttonEmpty st b \<and>
            loopK w k sid bi li st = Some (step w sid b bi' li' st))"
  using assms
proof (induction "N_LOOPS - li" arbitrary: li bi)
  case 0
  then have "li = N_LOOPS" by simp
  then show ?case using 0 by (simp add: loopK_over)
next
  case (Suc n)
  then have lt: "li < N_LOOPS" by simp
  have ih: "loopK w k sid 0 (li + 1) st = k (unregister sid st) \<or>
         loopK w k sid 0 (li + 1) st = Some (throw TypeError st) \<or>
         (\<exists>b bi' li'. li' < N_LOOPS \<and> getButton (buttons m) bi' = Some b \<and> \<not> buttonEmpty st b \<and>
            loopK w k sid 0 (li + 1) st = Some (step w sid b bi' li' st))"
    using Suc.hyps(1)[of "li + 1" 0] Suc.hyps(2) Suc.prems lt by simp
  show ?case
  proof (cases "getButton (buttons m) bi")
    case None
    then show ?thesis using Suc.prems lt
      by (subst loopK.simps) (simp add: isLoopOver_def)
  next
    case (Some b)
    show ?thesis
    proof (cases "buttonEmpty st b")
      case True
      have "loopK w k sid bi li st = loopK w k sid 0 (li + 1) st"
        using Suc.prems lt Some True by (subst loopK.simps) (simp add: isLoopOver_def)
      then show ?thesis using ih by simp
    next
      case False
      have "loopK w k sid bi li st = Some (step w sid b bi li st)"
        using Suc.prems lt Some False by (subst loopK.simps) (simp add: isLoopOver_def)
      then show ?thesis using lt Some False by blast
    qed
  qed
qed

lemmas prims = emit_def throw_def setTimeout_def clearTimeout_def addListener_def
  removeListener_def addEventListener_def removeEventListener_def registerListeners_def
  unregisterListeners_def signalLongGaze_def toggle_def announce_def addFinishedListener_def
  pressed_def register_def unregister_def newSession_def

lemmas traces = live_append oneAtATime_append

lemma noNext_Next: "noNext st \<Longrightarrow> timers st i \<noteq> Some (d, Next sid b bi li)"
  unfolding noNext_def by (metis timer_action.distinct(1))

lemma noNextI: "(\<And>i d sid b bi li. timers st i \<noteq> Some (d, Next sid b bi li)) \<Longrightarrow> noNext st"
  unfolding noNext_def
proof (intro allI impI)
  fix i d a assume a: "\<And>i d sid b bi li. timers st i \<noteq> Some (d, Next sid b bi li)"
    and t: "timers st i = Some (d, a)"
  show "a = SignalLongGaze" using a t by (cases a) auto
qed

lemma inv_timers_noNext:
  "noNext st \<Longrightarrow> inv_timers st = (\<forall>i. timers st i \<noteq> None \<longrightarrow> i < nextTimer st)"
  unfolding inv_timers_def using noNext_Next by blast

lemma inv_listeners_emit:
  "(\<And>ls. liveStep ls e = ls) \<Longrightarrow> inv_listeners (emit e st) = inv_listeners st"
  by (auto simp: inv_listeners_def emit_def traces)

lemma inv_emit: "(\<And>ls. liveStep ls e = ls) \<Longrightarrow> inv w (emit e st) = inv w st"
  by (simp add: inv_def inv_listeners_emit) (simp add: inv_timers_def inv_sessions_def emit_def)

lemma inv_throw: "inv w (throw e st) = inv w st"
  by (simp add: throw_def inv_emit)

lemma inv_buttonOn: "inv w (st\<lparr>buttonOn := f\<rparr>) = inv w st"
  by (simp add: inv_def inv_listeners_def inv_timers_def inv_sessions_def)

lemma inv_toggle: "inv w (toggle b st) = inv w st"
  by (simp add: toggle_def inv_emit inv_buttonOn)

lemma inv_now: "inv w (st\<lparr>now := t\<rparr>) = inv w st"
  by (simp add: inv_def inv_listeners_def inv_timers_def inv_sessions_def)

lemma inv_buttonEmpty: "inv w (st\<lparr>buttonEmpty := e\<rparr>) = inv w st"
  by (simp add: inv_def inv_listeners_def inv_timers_def inv_sessions_def)

lemma inv_timer_gone: "inv w st \<Longrightarrow> inv w (st\<lparr>timers := (timers st)(i := None)\<rparr>)"
  by (simp add: inv_def inv_listeners_def inv_timers_def inv_sessions_def)

lemma inv_clearTimeout: "inv w st \<Longrightarrow> inv w (clearTimeout h st)"
  by (cases h) (simp_all add: clearTimeout_def inv_timer_gone)

lemma noNext_emit: "noNext (emit e st) = noNext st"
  by (simp add: noNext_def emit_def)

lemma noNext_toggle: "noNext (toggle b st) = noNext st"
  by (simp add: noNext_def toggle_def emit_def)

lemma noNext_timer_gone: "noNext st \<Longrightarrow> noNext (st\<lparr>timers := (timers st)(i := None)\<rparr>)"
  by (simp add: noNext_def)

lemma quiet_emit: "(\<And>ls. liveStep ls e = ls) \<Longrightarrow> quiet w l (emit e st) = quiet w l st"
  by (simp add: quiet_def inv_emit noNext_emit) (simp add: emit_def)

lemma quiet_toggle: "quiet w l (toggle b st) = quiet w l st"
  by (simp add: quiet_def inv_toggle noNext_toggle) (simp add: toggle_def emit_def)

lemma idle_noNext: "idle w st \<Longrightarrow> noNext st"
  by (rule noNextI) (auto simp: idle_def inv_def inv_timers_def)

lemma inv_longGaze_timer:
  "inv w st \<Longrightarrow> longGazeTimeout (sessions st sid) = Some i \<Longrightarrow> timers st i = Some (d, a)
     \<Longrightarrow> a = SignalLongGaze"
  unfolding inv_def inv_sessions_def by blast

lemma inv_handles:
  assumes "inv w st"
  shows "timeout (sessions st sid) = Some i \<Longrightarrow> i < nextTimer st"
    and "longGazeTimeout (sessions st sid) = Some i \<Longrightarrow> i < nextTimer st"
    and "l_longGazeTimeout (listens st lid) = Some i \<Longrightarrow> i < nextTimer st"
  using assms unfolding inv_def inv_sessions_def by blast+

lemma inv_next_timer:
  assumes "inv w st" "timers st i = Some (d, Next sid b bi li)"
  shows "beginListeners st = [ScanMenuL sid]" "timeout (sessions st sid) = Some i"
    "currentButton (sessions st sid) = Some b" "li < N_LOOPS"
  using assms unfolding inv_def inv_timers_def by blast+


lemma inv_gaze_current:
  "inv w st \<Longrightarrow> currentButton (sessions st sid) = None \<Longrightarrow> gazeButton (sessions st sid) = None"
  unfolding inv_def inv_sessions_def by blast

lemma clearTimeout_fields:
  "sessions (clearTimeout h st) = sessions st"
  "listens (clearTimeout h st) = listens st"
  "nextClosure (clearTimeout h st) = nextClosure st"
  "nextTimer (clearTimeout h st) = nextTimer st"
  "beginListeners (clearTimeout h st) = beginListeners st"
  "endListeners (clearTimeout h st) = endListeners st"
  "clickListeners (clearTimeout h st) = clickListeners st"
  "finishedListeners (clearTimeout h st) = finishedListeners st"
  "buttonEmpty (clearTimeout h st) = buttonEmpty st"
  "buttonOn (clearTimeout h st) = buttonOn st"
  "trace (clearTimeout h st) = trace st"
  "now (clearTimeout h st) = now st"
  by (cases h; simp add: clearTimeout_def)+


lemma quiet_entered:
  assumes "idle w st"
  shows "quiet w (ScanMenuL (nextClosure st)) (register (nextClosure st) (newSession m cb st))"
proof -
  let ?st' = "register (nextClosure st) (newSession m cb st)"
  have nn: "noNext ?st'"
    using idle_noNext[OF assms] by (simp add: noNext_def prims)
  from assms have "inv_listeners ?st'"
    by (auto simp: idle_def inv_def inv_listeners_def prims traces)
  moreover from assms have "inv_timers ?st'"
    unfolding inv_timers_noNext[OF nn]
    by (simp add: idle_def inv_def inv_timers_def prims)
  moreover from assms have "inv_sessions w ?st'"
    by (simp add: idle_def inv_def inv_sessions_def prims)
  moreover from assms have "beginListeners ?st' = [ScanMenuL (nextClosure st)]"
    by (simp add: idle_def prims)
  ultimately show ?thesis using nn
    by (simp add: quiet_def inv_def)
qed

lemma inv_step:
  assumes "quiet w (ScanMenuL sid) st" "menus w (s_menu (sessions st sid)) \<noteq> None" "li < N_LOOPS"
  shows "inv w (step w sid b bi li st)"
proof -
  from assms have "inv_listeners (step w sid b bi li st)"
    by (auto simp: quiet_def inv_def inv_listeners_def prims traces step_def Let_def)
  moreover have "inv_timers (step w sid b bi li st)"
  proof -
    have a: "beginListeners (step w sid b bi li st) = [ScanMenuL sid'] \<and>
         timeout (sessions (step w sid b bi li st) sid') = Some i \<and>
         currentButton (sessions (step w sid b bi li st) sid') = Some b' \<and> li' < N_LOOPS"
      if t: "timers (step w sid b bi li st) i = Some (d, Next sid' b' bi' li')"
      for i d sid' b' bi' li'
    proof -
      have "i = nextTimer st"
      proof (rule ccontr)
        assume "i \<noteq> nextTimer st"
        with t have "timers st i = Some (d, Next sid' b' bi' li')"
          by (simp add: prims step_def Let_def)
        with assms(1) show False using noNext_Next by (auto simp: quiet_def)
      qed
      with t assms show ?thesis
        by (simp add: quiet_def prims step_def Let_def)
    qed
    have b: "i < nextTimer (step w sid b bi li st)"
      if "timers (step w sid b bi li st) i \<noteq> None" for i
      using that assms(1)
      by (auto simp: quiet_def inv_def inv_timers_def prims step_def Let_def split: if_splits
          intro: less_SucI)
    from a b show ?thesis unfolding inv_timers_def by blast
  qed
  moreover from assms have "inv_sessions w (step w sid b bi li st)"
    unfolding inv_sessions_def quiet_def inv_def
    by (auto simp: prims step_def Let_def intro: less_SucI)
  ultimately show ?thesis by (simp add: inv_def)
qed

lemma idle_unregister:
  assumes "quiet w l st"
  shows "idle w (unregisterListeners l st)"
proof -
  let ?st' = "unregisterListeners l st"
  from assms have nn: "noNext ?st'" by (simp add: quiet_def noNext_def prims)
  from assms have "inv_listeners ?st'"
    by (auto simp: quiet_def inv_def inv_listeners_def prims traces)
  moreover from assms have "inv_timers ?st'"
    unfolding inv_timers_noNext[OF nn]
    by (simp add: quiet_def inv_def inv_timers_def prims)
  moreover from assms have "inv_sessions w ?st'"
    by (simp add: quiet_def inv_def inv_sessions_def prims)
  moreover from assms have "beginListeners ?st' = []" "finishedListeners ?st' = []"
    by (auto simp: quiet_def inv_def inv_listeners_def prims)
  ultimately show ?thesis by (simp add: idle_def inv_def)
qed

lemma inv_press:
  assumes "idle w st"
  shows "inv w (pressed b (addFinishedListener b c st))"
proof -
  let ?st' = "pressed b (addFinishedListener b c st)"
  from assms have nn: "noNext ?st'"
    using idle_noNext[OF assms] by (simp add: noNext_def prims)
  from assms have "inv_listeners ?st'"
    by (auto simp: idle_def inv_def inv_listeners_def prims traces)
  moreover from assms have "inv_timers ?st'"
    unfolding inv_timers_noNext[OF nn]
    by (simp add: idle_def inv_def inv_timers_def prims)
  moreover from assms have "inv_sessions w ?st'"
    by (simp add: idle_def inv_def inv_sessions_def prims)
  ultimately show ?thesis by (simp add: inv_def)
qed

lemma inv_listen:
  assumes "idle w st"
  shows "inv w (listen st)"
proof -
  have nn: "noNext (listen st)"
    using idle_noNext[OF assms] by (simp add: noNext_def prims listen_def Let_def)
  from assms have "inv_listeners (listen st)"
    by (auto simp: idle_def inv_def inv_listeners_def prims traces listen_def Let_def)
  moreover from assms have "inv_timers (listen st)"
    unfolding inv_timers_noNext[OF nn]
    by (simp add: idle_def inv_def inv_timers_def prims listen_def Let_def)
  moreover from assms have "inv_sessions w (listen st)"
    by (simp add: idle_def inv_def inv_sessions_def prims listen_def Let_def)
  ultimately show ?thesis by (simp add: inv_def)
qed

subsection \<open>handleFree and frame\<close>

lemma handleFree_emit: "handleFree i S (emit e st) = handleFree i S st"
  by (simp add: handleFree_def emit_def)

lemma handleFree_toggle: "handleFree i S (toggle b st) = handleFree i S st"
  by (simp add: handleFree_def toggle_def emit_def)

lemma handleFree_unregister: "handleFree i S (unregisterListeners l st) = handleFree i S st"
  by (simp add: handleFree_def unregisterListeners_def emit_def)

lemma handleFree_clearTimeout: "handleFree i S (clearTimeout h st) = handleFree i S st"
  by (cases h) (simp_all add: handleFree_def clearTimeout_def)

lemma handleFree_entered:
  "handleFree i S st \<Longrightarrow> handleFree i S (register sid (newSession m cb st))"
  by (simp add: handleFree_def prims)

lemma handleFree_step: "handleFree i S st \<Longrightarrow> handleFree i S (step w sid b bi li st)"
  by (auto simp: handleFree_def prims step_def Let_def)

lemma handleFree_listen: "handleFree i S st \<Longrightarrow> handleFree i S (listen st)"
  by (auto simp: handleFree_def prims listen_def Let_def)

lemma presses_append: "presses (xs @ ys) = presses xs @ presses ys"
  by (induction xs rule: presses.induct) simp_all

lemma presses_emit:
  "trace (emit e st) = trace st @ [e]"
  by (simp add: emit_def)

lemma frameI:
  assumes "nextClosure st \<le> nextClosure st'" "nextTimer st \<le> nextTimer st'"
    "\<And>sid. sid < nextClosure st \<Longrightarrow> sessions st' sid = sessions st sid"
    "\<And>i. i < nextTimer st \<Longrightarrow> timers st' i = timers st i"
    "\<And>i S. handleFree i S st \<Longrightarrow> handleFree i S st'"
    "\<And>l. l \<in> set (beginListeners st') \<Longrightarrow>
        l \<in> set (beginListeners st) \<or> nextClosure st \<le> closureId l"
    "prefix (trace st) (trace st')"
    "presses (trace st') = presses (trace st)"
  shows "frame st st'"
  using assms unfolding frame_def by blast

lemma frame_refl: "frame st st"
  by (simp add: frame_def)

lemma frame_trans:
  assumes "frame a b" "frame b c"
  shows "frame a c"
proof (rule frameI)
  show "nextClosure a \<le> nextClosure c" "nextTimer a \<le> nextTimer c"
    using assms by (simp_all add: frame_def)
  show "sessions c sid = sessions a sid" if "sid < nextClosure a" for sid
    using assms that by (simp add: frame_def)
  show "timers c i = timers a i" if "i < nextTimer a" for i
    using assms that by (simp add: frame_def)
  show "handleFree i S c" if "handleFree i S a" for i S
    using assms that by (simp add: frame_def)
  show "l \<in> set (beginListeners a) \<or> nextClosure a \<le> closureId l"
    if "l \<in> set (beginListeners c)" for l
  proof -
    from assms(2) that have "l \<in> set (beginListeners b) \<or> nextClosure b \<le> closureId l"
      by (simp add: frame_def)
    moreover from assms(1) have "nextClosure a \<le> nextClosure b"
      "l \<in> set (beginListeners b) \<Longrightarrow> l \<in> set (beginListeners a) \<or> nextClosure a \<le> closureId l"
      by (simp_all add: frame_def)
    ultimately show ?thesis by auto
  qed
  show "prefix (trace a) (trace c)"
    using assms by (auto simp: frame_def)
  show "presses (trace c) = presses (trace a)"
    using assms by (simp add: frame_def)
qed

lemma frame_emit: "presses [e] = [] \<Longrightarrow> frame st (emit e st)"
  by (simp add: frame_def handleFree_emit) (simp add: emit_def presses_append)

lemma frame_throw: "frame st (throw e st)"
  by (simp add: throw_def frame_emit)

lemma frame_toggle: "frame st (toggle b st)"
  by (simp add: frame_def handleFree_toggle) (simp add: toggle_def emit_def presses_append)

lemma set_removeListener: "l' \<in> set (removeListener l ls) \<Longrightarrow> l' \<in> set ls"
  using set_remove1_subset[of l "rev ls"] by (auto simp: removeListener_def)

lemma frame_unregister: "frame st (unregisterListeners l st)"
  by (simp add: frame_def handleFree_unregister)
     (auto simp: unregisterListeners_def emit_def presses_append dest: set_removeListener)

lemma frame_entered: "frame st (register (nextClosure st) (newSession m cb st))"
  by (simp add: frame_def handleFree_entered) (auto simp: prims presses_append)

lemma frame_listen: "frame st (listen st)"
  by (simp add: frame_def handleFree_listen) (auto simp: prims listen_def Let_def presses_append)

lemma frame_step:
  assumes "frame a b" "nextClosure a \<le> sid"
  shows "frame a (step w sid x bi li b)"
proof (rule frameI)
  show "nextClosure a \<le> nextClosure (step w sid x bi li b)"
    "nextTimer a \<le> nextTimer (step w sid x bi li b)"
    using assms by (simp_all add: frame_def prims step_def Let_def)
  show "sessions (step w sid x bi li b) s = sessions a s" if "s < nextClosure a" for s
    using assms that by (simp add: frame_def prims step_def Let_def)
  show "timers (step w sid x bi li b) i = timers a i" if "i < nextTimer a" for i
    using assms that by (simp add: frame_def prims step_def Let_def)
  show "handleFree i S (step w sid x bi li b)" if "handleFree i S a" for i S
    using assms that handleFree_step by (simp add: frame_def)
  show "l \<in> set (beginListeners a) \<or> nextClosure a \<le> closureId l"
    if "l \<in> set (beginListeners (step w sid x bi li b))" for l
    using assms that by (simp add: frame_def prims step_def Let_def)
  show "prefix (trace a) (trace (step w sid x bi li b))"
    using assms by (simp add: frame_def prims step_def Let_def prefix_prefix)
  show "presses (trace (step w sid x bi li b)) = presses (trace a)"
    using assms by (simp add: frame_def prims step_def Let_def presses_append)
qed

lemma idle_emit:
  assumes "idle w st" "\<And>ls. liveStep ls e = ls"
  shows "idle w (emit e st)"
  using assms by (simp add: idle_def inv_emit) (simp add: emit_def)

lemma entered_menu:
  "s_menu (sessions (register (nextClosure st) (newSession m cb st)) (nextClosure st)) = m"
  by (simp add: prims)

lemma scanMenuK_returns:
  assumes k: "returns w k" and idle: "idle w st"
  shows "\<exists>st'. scanMenuK w k m cb st = Some st' \<and> inv w st' \<and> frame st st'"
proof -
  define sid where "sid = nextClosure st"
  define st2 where "st2 = register sid (newSession m cb st)"
  have eq: "scanMenuK w k m cb st = loopK w k sid 0 0 st2"
    by (simp add: scanMenuK_def st2_def sid_def Let_def)
  have menu: "s_menu (sessions st2 sid) = m"
    by (simp add: st2_def sid_def entered_menu)
  have q: "quiet w (ScanMenuL sid) st2"
    unfolding st2_def sid_def by (rule quiet_entered[OF idle])
  have f: "frame st st2"
    unfolding st2_def sid_def by (rule frame_entered)
  have thrown: "inv w (throw TypeError st2) \<and> frame st (throw TypeError st2)"
    using q f frame_trans[OF f frame_throw] by (simp add: inv_throw quiet_def)
  show ?thesis
  proof (cases "menus w m")
    case None
    then have "loopK w k sid 0 0 st2 = Some (throw TypeError st2)"
      by (simp add: loopK_nomenu menu)
    then show ?thesis using thrown by (simp add: eq)
  next
    case (Some mm)
    have "0 \<le> N_LOOPS" by simp
    from loopK_cases[OF this, of w st2 sid mm k 0] Some menu
    consider
      (over) "loopK w k sid 0 0 st2 = k (unregister sid st2)"
      | (thrown) "loopK w k sid 0 0 st2 = Some (throw TypeError st2)"
      | (stepped) b bi' li' where "li' < N_LOOPS"
          "loopK w k sid 0 0 st2 = Some (step w sid b bi' li' st2)"
      by auto
    then show ?thesis
    proof cases
      case over
      have i2: "idle w (unregister sid st2)"
        unfolding unregister_def by (rule idle_unregister[OF q])
      have f2: "frame st (unregister sid st2)"
        unfolding unregister_def by (rule frame_trans[OF f frame_unregister])
      from k i2 obtain st' where
        "k (unregister sid st2) = Some st'" "inv w st'" "frame (unregister sid st2) st'"
        unfolding returns_def by blast
      then show ?thesis using over eq frame_trans[OF f2] by auto
    next
      case thrown
      then show ?thesis using \<open>inv w (throw TypeError st2) \<and> frame st (throw TypeError st2)\<close>
        by (simp add: eq)
    next
      case stepped
      have "inv w (step w sid b bi' li' st2)"
        using inv_step[OF q _ stepped(1)] Some menu by simp
      moreover have "frame st (step w sid b bi' li' st2)"
        by (rule frame_step[OF f]) (simp add: sid_def)
      ultimately show ?thesis using stepped by (simp add: eq)
    qed
  qed
qed

lemma afterTargetK_frame:
  assumes k: "returns w k" and idle0: "idle w st"
  shows "\<exists>st'. afterTargetK w b bcb k st = Some st' \<and> inv w st' \<and>
           frame (emit (Invoke (AfterTarget b bcb)) st) st'"
proof -
  define st1 where "st1 = emit (Invoke (AfterTarget b bcb)) st"
  have idle: "idle w st1" unfolding st1_def by (rule idle_emit[OF idle0]) simp
  show ?thesis
  proof (cases "selectsDropdownMenu w b")
    case (Inl e)
    have "inv w (throw e st1)" using idle by (simp add: inv_throw idle_def)
    then show ?thesis using Inl frame_throw[of st1 e]
      by (simp add: afterTargetK_def st1_def[symmetric] Let_def)
  next
    case (Inr sel)
    show ?thesis
    proof (cases sel)
      case True
      have i2: "idle w (emit (SlideUp (target w b)) st1)" by (rule idle_emit[OF idle]) simp
      have f2: "frame st1 (emit (SlideUp (target w b)) st1)" by (rule frame_emit) simp
      from k i2 obtain st' where "k (emit (SlideUp (target w b)) st1) = Some st'" "inv w st'"
        "frame (emit (SlideUp (target w b)) st1) st'"
        unfolding returns_def by blast
      then show ?thesis using Inr True frame_trans[OF f2]
        by (auto simp: afterTargetK_def st1_def[symmetric] Let_def)
    next
      case False
      from k idle obtain st' where "k st1 = Some st'" "inv w st'" "frame st1 st'"
        unfolding returns_def by blast
      then show ?thesis using Inr False
        by (auto simp: afterTargetK_def st1_def[symmetric] Let_def)
    qed
  qed
qed

lemma afterTargetK_returns:
  assumes k: "returns w k"
  shows "returns w (afterTargetK w b bcb k)"
  unfolding returns_def
proof (intro allI impI)
  fix st assume idle: "idle w st"
  have f1: "frame st (emit (Invoke (AfterTarget b bcb)) st)" by (rule frame_emit) simp
  from afterTargetK_frame[OF k idle, of b bcb] frame_trans[OF f1]
  show "\<exists>st'. afterTargetK w b bcb k st = Some st' \<and> inv w st' \<and> frame st st'" by blast
qed

lemma listen_returns: "returns w (\<lambda>st. Some (listen st))"
  unfolding returns_def using inv_listen frame_listen by simp

lemma invoked_returns:
  assumes "returns w k"
  shows "returns w (\<lambda>st. k (emit (Invoke c) st))"
  unfolding returns_def
proof (intro allI impI)
  fix st assume idle: "idle w st"
  have i2: "idle w (emit (Invoke c) st)" by (rule idle_emit[OF idle]) simp
  have f2: "frame st (emit (Invoke c) st)" by (rule frame_emit) simp
  from assms i2 obtain st' where "k (emit (Invoke c) st) = Some st'" "inv w st'"
    "frame (emit (Invoke c) st) st'"
    unfolding returns_def by blast
  then show "\<exists>st'. k (emit (Invoke c) st) = Some st' \<and> inv w st' \<and> frame st st'"
    using frame_trans[OF f2] by auto
qed

lemma scanMenuK_returns': "returns w k \<Longrightarrow> returns w (scanMenuK w k m cb)"
  unfolding returns_def using scanMenuK_returns[unfolded returns_def] by blast

lemma callCont_returns: "returns w (callCont w c)"
proof (induction c)
  case Listen
  show ?case using invoked_returns[OF listen_returns, of w Listen] by simp
next
  case (ScanMenuAgain m cb)
  show ?case
    using invoked_returns[OF scanMenuK_returns'[OF ScanMenuAgain.IH], of m cb "ScanMenuAgain m cb"]
    by simp
next
  case (AfterTarget b bcb)
  show ?case using afterTargetK_returns[OF AfterTarget.IH] by simp
next
  case (ScanTarget b bcb)
  show ?case
    using invoked_returns[OF scanMenuK_returns'[OF afterTargetK_returns[OF ScanTarget.IH]],
        of b bcb "target w b" "AfterTarget b bcb" "ScanTarget b bcb"]
    by simp
qed

lemma callCont_idle:
  assumes "idle w st"
  shows "\<exists>st'. callCont w c st = Some st' \<and> inv w st' \<and> frame st st'"
  using callCont_returns[of w c] assms unfolding returns_def by blast

lemma callCont_invoked:
  assumes idle: "idle w st"
  shows "\<exists>st'. callCont w c st = Some st' \<and> inv w st' \<and> frame (emit (Invoke c) st) st'"
proof -
  have i2: "idle w (emit (Invoke c) st)" by (rule idle_emit[OF idle]) simp
  show ?thesis
  proof (cases c)
    case Listen
    then show ?thesis using inv_listen[OF i2] frame_listen[of "emit (Invoke c) st"] by simp
  next
    case (ScanMenuAgain m cb)
    then show ?thesis
      using scanMenuK_returns[OF callCont_returns[of w cb] i2, of m cb] by simp
  next
    case (AfterTarget b bcb)
    then show ?thesis
      using afterTargetK_frame[OF callCont_returns[of w bcb] idle, of b bcb] by simp
  next
    case (ScanTarget b bcb)
    then show ?thesis
      using scanMenuK_returns[OF afterTargetK_returns[OF callCont_returns[of w bcb]] i2,
          of b bcb "target w b" "AfterTarget b bcb"] by simp
  qed
qed

lemma frame_trace:
  assumes "frame st st'"
  shows "\<exists>xs. trace st' = trace st @ xs \<and> presses xs = []"
proof -
  from assms obtain xs where xs: "trace st' = trace st @ xs"
    by (auto simp: frame_def prefix_def)
  moreover from assms xs have "presses xs = []"
    by (simp add: frame_def presses_append)
  ultimately show ?thesis by blast
qed

subsection \<open>keeps\<close>

lemma keepsI:
  assumes "nextClosure st \<le> nextClosure st'" "nextTimer st \<le> nextTimer st'"
    "\<And>sid. sid < nextClosure st \<Longrightarrow>
        gazeButton (sessions st' sid) = gazeButton (sessions st sid) \<and>
        startTime (sessions st' sid) = startTime (sessions st sid) \<and>
        s_menu (sessions st' sid) = s_menu (sessions st sid) \<and>
        s_cb (sessions st' sid) = s_cb (sessions st sid)"
    "\<And>i. i < nextTimer st \<Longrightarrow> i \<notin> U \<Longrightarrow> timers st' i = timers st i"
    "\<And>i S. handleFree i S st \<Longrightarrow> handleFree i S st'"
    "\<And>l. l \<in> set (beginListeners st') \<Longrightarrow>
        l \<in> set (beginListeners st) \<or> nextClosure st \<le> closureId l"
  shows "keeps U st st'"
  using assms unfolding keeps_def by blast

lemma keeps_refl: "keeps U st st"
  by (simp add: keeps_def)

lemma keeps_trans:
  assumes "keeps U a b" "keeps V b c"
  shows "keeps (U \<union> V) a c"
proof (rule keepsI)
  show "nextClosure a \<le> nextClosure c" "nextTimer a \<le> nextTimer c"
    using assms by (simp_all add: keeps_def)
  show "gazeButton (sessions c sid) = gazeButton (sessions a sid) \<and>
        startTime (sessions c sid) = startTime (sessions a sid) \<and>
        s_menu (sessions c sid) = s_menu (sessions a sid) \<and>
        s_cb (sessions c sid) = s_cb (sessions a sid)" if "sid < nextClosure a" for sid
  proof -
    from assms(1) that have "sid < nextClosure b" by (simp add: keeps_def)
    with assms that show ?thesis by (simp add: keeps_def)
  qed
  show "timers c i = timers a i" if "i < nextTimer a" "i \<notin> U \<union> V" for i
  proof -
    from assms(1) that have "i < nextTimer b" by (simp add: keeps_def)
    with assms that show ?thesis by (simp add: keeps_def)
  qed
  show "handleFree i S c" if "handleFree i S a" for i S
    using assms that by (simp add: keeps_def)
  show "l \<in> set (beginListeners a) \<or> nextClosure a \<le> closureId l"
    if "l \<in> set (beginListeners c)" for l
  proof -
    from assms(2) that have "l \<in> set (beginListeners b) \<or> nextClosure b \<le> closureId l"
      by (simp add: keeps_def)
    moreover from assms(1) have "nextClosure a \<le> nextClosure b"
      "l \<in> set (beginListeners b) \<Longrightarrow> l \<in> set (beginListeners a) \<or> nextClosure a \<le> closureId l"
      by (simp_all add: keeps_def)
    ultimately show ?thesis by auto
  qed
qed

lemma keeps_weaken: "keeps U a b \<Longrightarrow> U \<subseteq> V \<Longrightarrow> keeps V a b"
  unfolding keeps_def by blast

lemma frame_keeps: "frame st st' \<Longrightarrow> keeps {} st st'"
  unfolding frame_def keeps_def by simp

lemma keeps_emit: "keeps {} st (emit e st)"
  by (simp add: keeps_def handleFree_emit) (simp add: emit_def)

lemma keeps_throw: "keeps {} st (throw e st)"
  by (simp add: throw_def keeps_emit)

lemma keeps_toggle: "keeps {} st (toggle b st)"
  by (simp add: keeps_def handleFree_toggle) (simp add: toggle_def emit_def)

lemma keeps_unregister: "keeps {} st (unregisterListeners l st)"
  by (simp add: keeps_def handleFree_unregister)
     (auto simp: unregisterListeners_def emit_def dest: set_removeListener)

lemma keeps_clearTimeout: "keeps (set_option h) st (clearTimeout h st)"
  by (cases h) (simp_all add: keeps_def handleFree_clearTimeout, simp_all add: clearTimeout_def)

lemma keeps_timer_gone: "keeps {i} st (st\<lparr>timers := (timers st)(i := None)\<rparr>)"
  by (simp add: keeps_def handleFree_def)

lemma handleFree_press:
  "handleFree i S (pressed b (addFinishedListener b c st)) = handleFree i S st"
  by (simp add: handleFree_def prims)

lemma keeps_press: "keeps {} st (pressed b (addFinishedListener b c st))"
  by (simp add: keeps_def handleFree_press) (simp add: prims)

lemma keeps_step: "keeps {} st (step w sid b bi li st)"
proof (rule keepsI)
  show "handleFree i S (step w sid b bi li st)" if "handleFree i S st" for i S
    using that by (rule handleFree_step)
qed (simp_all add: prims step_def Let_def)

lemma keeps_now: "keeps {} st (st\<lparr>now := t\<rparr>)"
  by (simp add: keeps_def handleFree_def)

lemma keeps_buttonEmpty: "keeps {} st (st\<lparr>buttonEmpty := f\<rparr>)"
  by (simp add: keeps_def handleFree_def)

subsection \<open>States with one set of listeners\<close>

lemma quiet_cleared:
  assumes "inv w st" "beginListeners st = [ScanMenuL sid]"
  shows "quiet w (ScanMenuL sid) (clearTimeout (timeout (sessions st sid)) st)"
proof -
  let ?st' = "clearTimeout (timeout (sessions st sid)) st"
  have "inv w ?st'" using assms(1) by (rule inv_clearTimeout)
  moreover have "noNext ?st'"
  proof (rule noNextI)
    fix i d sid' b bi li
    show "timers ?st' i \<noteq> Some (d, Next sid' b bi li)"
    proof
      assume t: "timers ?st' i = Some (d, Next sid' b bi li)"
      then have t0: "timers st i = Some (d, Next sid' b bi li)"
        by (cases "timeout (sessions st sid)") (auto simp: clearTimeout_def split: if_splits)
      with assms have "timeout (sessions st sid) = Some i"
        by (auto simp: inv_def inv_timers_def)
      with t show False by (simp add: clearTimeout_def)
    qed
  qed
  moreover have "beginListeners ?st' = [ScanMenuL sid]"
    using assms(2) by (cases "timeout (sessions st sid)") (simp_all add: clearTimeout_def)
  ultimately show ?thesis by (simp add: quiet_def)
qed

lemma quiet_fired:
  assumes "inv w st" "timers st i = Some (d, Next sid b bi li)"
  shows "quiet w (ScanMenuL sid) (st\<lparr>timers := (timers st)(i := None)\<rparr>)"
proof -
  let ?st' = "st\<lparr>timers := (timers st)(i := None)\<rparr>"
  have "inv w ?st'" using assms(1) by (rule inv_timer_gone)
  moreover have reg: "beginListeners st = [ScanMenuL sid]" "timeout (sessions st sid) = Some i"
    using assms by (auto simp: inv_def inv_timers_def)
  moreover have "noNext ?st'"
  proof (rule noNextI)
    fix j d' sid' b' bi' li'
    show "timers ?st' j \<noteq> Some (d', Next sid' b' bi' li')"
    proof
      assume t: "timers ?st' j = Some (d', Next sid' b' bi' li')"
      then have "j \<noteq> i" "timers st j = Some (d', Next sid' b' bi' li')"
        by (auto split: if_splits)
      with assms(1) have "beginListeners st = [ScanMenuL sid']"
        "timeout (sessions st sid') = Some j"
        by (auto simp: inv_def inv_timers_def)
      with reg \<open>j \<noteq> i\<close> show False by simp
    qed
  qed
  ultimately show ?thesis by (simp add: quiet_def)
qed

lemma quiet_listening:
  assumes "inv w st" "beginListeners st = [ListenL lid]"
  shows "quiet w (ListenL lid) st"
proof -
  have "noNext st"
  proof (rule noNextI)
    fix i d sid b bi li
    show "timers st i \<noteq> Some (d, Next sid b bi li)"
      using assms by (auto simp: inv_def inv_timers_def)
  qed
  with assms show ?thesis by (simp add: quiet_def)
qed

lemma quiet_clearTimeout: "quiet w l st \<Longrightarrow> quiet w l (clearTimeout h st)"
  by (cases h) (simp_all add: quiet_def clearTimeout_def inv_timer_gone noNext_timer_gone)

lemma inv_gazeBegin:
  assumes "inv w st"
  shows "inv w (gazeBegin sid st)"
proof -
  from assms have "inv_listeners (gazeBegin sid st)"
    by (simp add: inv_def inv_listeners_def setTimeout_def gazeBegin_def Let_def)
  moreover from assms have "inv_timers (gazeBegin sid st)"
    by (auto simp: inv_def inv_timers_def setTimeout_def gazeBegin_def Let_def intro: less_SucI)
  moreover from assms have "inv_sessions w (gazeBegin sid st)"
    unfolding inv_def inv_sessions_def
    by (auto simp: setTimeout_def gazeBegin_def Let_def intro: less_SucI)
  ultimately show ?thesis by (simp add: inv_def)
qed

lemma inv_l_gazeBegin:
  assumes "inv w st"
  shows "inv w (l_gazeBegin lid st)"
proof -
  from assms have "inv_listeners (l_gazeBegin lid st)"
    by (simp add: inv_def inv_listeners_def setTimeout_def l_gazeBegin_def Let_def)
  moreover from assms have "inv_timers (l_gazeBegin lid st)"
    by (auto simp: inv_def inv_timers_def setTimeout_def l_gazeBegin_def Let_def intro: less_SucI)
  moreover from assms have "inv_sessions w (l_gazeBegin lid st)"
    unfolding inv_def inv_sessions_def
    by (auto simp: setTimeout_def l_gazeBegin_def Let_def intro: less_SucI)
  ultimately show ?thesis by (simp add: inv_def)
qed

subsection \<open>The handlers keep the invariant\<close>

lemma idle_toggle: "idle w (toggle b st) = idle w st"
  by (simp add: idle_def inv_toggle) (simp add: toggle_def emit_def)

lemma idle_throw: "idle w (throw e st) = idle w st"
  by (simp add: idle_def inv_throw) (simp add: throw_def emit_def)

lemma idle_inv: "idle w st \<Longrightarrow> inv w st"
  by (simp add: idle_def)

lemma pressButton_ok:
  assumes q: "quiet w (ScanMenuL sid) st"
  shows "inv w (pressButton w sid button st) \<and> keeps {} st (pressButton w sid button st)"
proof -
  define st1 where "st1 = unregister sid st"
  have i1: "idle w st1" unfolding st1_def unregister_def by (rule idle_unregister[OF q])
  have k1: "keeps {} st st1" unfolding st1_def unregister_def by (rule keeps_unregister)
  show ?thesis
  proof (cases button)
    case None
    then have "pressButton w sid button st = throw TypeError st1"
      by (simp add: pressButton_def Let_def st1_def)
    then show ?thesis
      using i1 keeps_trans[OF k1 keeps_throw] by (simp add: inv_throw idle_def)
  next
    case (Some b)
    define st2 where
      "st2 = (if currentButton (sessions st sid) = gazeButton (sessions st sid)
              then toggle b st1 else st1)"
    have i2: "idle w st2" using i1 by (simp add: st2_def idle_toggle)
    have k2: "keeps {} st st2"
      using k1 keeps_trans[OF k1 keeps_toggle] by (simp add: st2_def)
    show ?thesis
    proof (cases "makeButtonCallback w (s_menu (sessions st sid)) (s_cb (sessions st sid)) b")
      case (Inl e)
      then have "pressButton w sid button st = throw e st2"
        using Some by (simp add: pressButton_def Let_def st1_def st2_def)
      then show ?thesis
        using i2 keeps_trans[OF k2 keeps_throw] by (simp add: inv_throw idle_def)
    next
      case (Inr bcb)
      then have "pressButton w sid button st = pressed b (addFinishedListener b bcb st2)"
        using Some by (simp add: pressButton_def Let_def st1_def st2_def)
      then show ?thesis
        using inv_press[OF i2] keeps_trans[OF k2 keeps_press] by simp
    qed
  qed
qed

lemma gazeEndAct_ok:
  assumes q: "quiet w (ScanMenuL sid) st"
  shows "\<exists>st'. gazeEndAct w sid el st = Some st' \<and> inv w st' \<and> keeps {} st st'"
proof (cases "num_lt el LONG_GAZE_TIME")
  case True
  then show ?thesis using pressButton_ok[OF q] by (simp add: gazeEndAct_def Let_def)
next
  case False
  have i1: "idle w (unregister sid st)" unfolding unregister_def by (rule idle_unregister[OF q])
  have k1: "keeps {} st (unregister sid st)" unfolding unregister_def by (rule keeps_unregister)
  obtain st' where r: "callCont w (s_cb (sessions st sid)) (unregister sid st) = Some st'"
    "inv w st'" "frame (unregister sid st) st'"
    using callCont_idle[OF i1, of "s_cb (sessions st sid)"] by blast
  then show ?thesis
    using False keeps_trans[OF k1 frame_keeps[OF r(3)]] by (simp add: gazeEndAct_def Let_def)
qed

lemma gazeEnd_ok:
  assumes inv: "inv w st" and reg: "beginListeners st = [ScanMenuL sid]"
  shows "\<exists>st'. gazeEnd w sid st = Some st' \<and> inv w st' \<and>
     keeps (set_option (longGazeTimeout (sessions st sid)) \<union> set_option (timeout (sessions st sid)))
       st st'"
proof -
  define s where "s = sessions st sid"
  define st1 where "st1 = clearTimeout (longGazeTimeout s) st"
  define el where "el = elapsedSince (now st) (startTime s)"
  have inv1: "inv w st1" unfolding st1_def by (rule inv_clearTimeout[OF inv])
  have k1: "keeps (set_option (longGazeTimeout s)) st st1"
    unfolding st1_def by (rule keeps_clearTimeout)
  have same: "sessions st1 = sessions st" "beginListeners st1 = beginListeners st"
    by (cases "longGazeTimeout s"; simp add: st1_def clearTimeout_def)+
  show ?thesis
  proof (cases "num_ge el SHORT_GAZE_TIME")
    case False
    then have "gazeEnd w sid st = Some st1"
      by (simp add: gazeEnd_def Let_def s_def st1_def el_def)
    then show ?thesis using inv1 keeps_weaken[OF k1] by (auto simp: s_def)
  next
    case True
    define st2 where "st2 = clearTimeout (timeout s) st1"
    have q2: "quiet w (ScanMenuL sid) st2"
      using quiet_cleared[OF inv1, of sid] reg same by (simp add: st2_def s_def)
    have k2: "keeps (set_option (longGazeTimeout s) \<union> set_option (timeout s)) st st2"
      unfolding st2_def by (rule keeps_trans[OF k1 keeps_clearTimeout])
    have s2: "sessions st2 = sessions st"
      using same by (cases "timeout s"; simp add: st2_def clearTimeout_def)
    show ?thesis
    proof (cases "currentButton s \<noteq> gazeButton s")
      case False
      then have eq: "gazeEnd w sid st = gazeEndAct w sid el st2"
        using True by (simp add: gazeEnd_def Let_def s_def st1_def el_def st2_def)
      from gazeEndAct_ok[OF q2, of el] obtain st' where
        "gazeEndAct w sid el st2 = Some st'" "inv w st'" "keeps {} st2 st'" by blast
      then show ?thesis using eq keeps_trans[OF k2, of "{}" st'] by (auto simp: s_def)
    next
      case neq: True
      show ?thesis
      proof (cases "currentButton s")
        case None
        then have eq: "gazeEnd w sid st = Some (throw TypeError st2)"
          using True neq by (simp add: gazeEnd_def Let_def s_def st1_def el_def st2_def)
        have "inv w (throw TypeError st2)" using q2 by (simp add: inv_throw quiet_def)
        then show ?thesis using eq keeps_trans[OF k2 keeps_throw] by (auto simp: s_def)
      next
        case (Some c)
        then have eq: "gazeEnd w sid st = gazeEndAct w sid el (toggle c st2)"
          using True neq by (simp add: gazeEnd_def Let_def s_def st1_def el_def st2_def)
        have q3: "quiet w (ScanMenuL sid) (toggle c st2)" using q2 by (simp add: quiet_toggle)
        have k3: "keeps (set_option (longGazeTimeout s) \<union> set_option (timeout s)) st (toggle c st2)"
          using keeps_trans[OF k2 keeps_toggle] by simp
        from gazeEndAct_ok[OF q3, of el] obtain st' where
          "gazeEndAct w sid el (toggle c st2) = Some st'" "inv w st'" "keeps {} (toggle c st2) st'"
          by blast
        then show ?thesis using eq keeps_trans[OF k3, of "{}" st'] by (auto simp: s_def)
      qed
    qed
  qed
qed

lemma quiet_current:
  assumes "inv w st" "beginListeners st = [ScanMenuL sid]" "currentButton (sessions st sid) = None"
  shows "quiet w (ScanMenuL sid) st"
proof -
  have "noNext st"
  proof (rule noNextI)
    fix i d sid' b bi li
    show "timers st i \<noteq> Some (d, Next sid' b bi li)"
      using assms by (auto simp: inv_def inv_timers_def)
  qed
  with assms show ?thesis by (simp add: quiet_def)
qed

lemma clear_unregister:
  "clearTimeout h (toggle c (unregister sid st)) = toggle c (unregister sid (clearTimeout h st))"
  by (cases h) (simp_all add: prims)

lemma pressStop_ok:
  assumes inv: "inv w st" and reg: "beginListeners st = [ScanMenuL sid]"
  shows "inv w (pressStop sid st) \<and>
     keeps (set_option (timeout (sessions st sid))) st (pressStop sid st)"
proof (cases "currentButton (sessions st sid)")
  case None
  have i1: "idle w (unregister sid st)"
    unfolding unregister_def by (rule idle_unregister[OF quiet_current[OF inv reg None]])
  have "pressStop sid st = throw TypeError (unregister sid st)"
    using None by (simp add: pressStop_def Let_def)
  moreover have "keeps {} st (throw TypeError (unregister sid st))"
    unfolding unregister_def by (rule keeps_trans[OF keeps_unregister keeps_throw, simplified])
  ultimately show ?thesis using i1 keeps_weaken by (auto simp: inv_throw idle_def)
next
  case (Some c)
  define h where "h = timeout (sessions st sid)"
  define st1 where "st1 = toggle c (unregister sid (clearTimeout h st))"
  have eq: "pressStop sid st = emit (SpeakSync ''stopping.'') (emit IdleMode st1)"
    using Some by (simp add: pressStop_def Let_def clear_unregister h_def st1_def)
  have i1: "idle w st1"
    unfolding st1_def idle_toggle unregister_def h_def
    by (rule idle_unregister[OF quiet_cleared[OF inv reg]])
  have k1: "keeps (set_option h) st st1"
    unfolding st1_def unregister_def
    using keeps_trans[OF keeps_trans[OF keeps_clearTimeout keeps_unregister] keeps_toggle]
    by simp
  have "inv w (pressStop sid st)"
    using i1 by (simp add: eq inv_emit idle_def)
  moreover have "keeps (set_option h) st (pressStop sid st)"
    unfolding eq using keeps_trans[OF keeps_trans[OF k1 keeps_emit] keeps_emit] by simp
  ultimately show ?thesis by (simp add: h_def)
qed

lemma loop_ok:
  assumes q: "quiet w (ScanMenuL sid) st" and li: "li \<le> N_LOOPS"
  shows "\<exists>st'. loop w sid bi li st = Some st' \<and> inv w st' \<and> keeps {} st st'"
proof (cases "menus w (s_menu (sessions st sid))")
  case None
  then have "loop w sid bi li st = Some (throw TypeError st)"
    by (simp add: loop_def loopK_nomenu)
  then show ?thesis using q keeps_throw by (simp add: inv_throw quiet_def)
next
  case (Some m)
  define k where "k = callCont w (s_cb (sessions st sid))"
  from loopK_cases[OF li Some, of k bi]
  consider
    (over) "loopK w k sid bi li st = k (unregister sid st)"
    | (thrown) "loopK w k sid bi li st = Some (throw TypeError st)"
    | (stepped) b bi' li' where "li' < N_LOOPS"
        "loopK w k sid bi li st = Some (step w sid b bi' li' st)"
    by auto
  then show ?thesis
  proof cases
    case over
    have i1: "idle w (unregister sid st)" unfolding unregister_def by (rule idle_unregister[OF q])
    have k1: "keeps {} st (unregister sid st)" unfolding unregister_def by (rule keeps_unregister)
    obtain st' where r: "k (unregister sid st) = Some st'" "inv w st'" "frame (unregister sid st) st'"
      unfolding k_def using callCont_idle[OF i1, of "s_cb (sessions st sid)"] by blast
    then show ?thesis
      using over keeps_trans[OF k1 frame_keeps[OF r(3)]] by (simp add: loop_def k_def)
  next
    case thrown
    then show ?thesis using q keeps_throw by (simp add: inv_throw quiet_def loop_def k_def)
  next
    case stepped
    have "inv w (step w sid b bi' li' st)"
      using inv_step[OF q _ stepped(1)] Some by simp
    then show ?thesis using stepped keeps_step by (simp add: loop_def k_def)
  qed
qed

lemma next_step_ok:
  assumes q: "quiet w (ScanMenuL sid) st" and li: "li < N_LOOPS"
  shows "\<exists>st'. next_step w sid b bi li st = Some st' \<and> inv w st' \<and> keeps {} st st'"
proof -
  define st1 where "st1 = toggle b st"
  have q1: "quiet w (ScanMenuL sid) st1" using q by (simp add: st1_def quiet_toggle)
  have k1: "keeps {} st st1" unfolding st1_def by (rule keeps_toggle)
  show ?thesis
  proof (cases "menus w (s_menu (sessions st1 sid))")
    case None
    then have "next_step w sid b bi li st = Some (throw TypeError st1)"
      by (simp add: next_step_def Let_def st1_def)
    then show ?thesis
      using q1 keeps_trans[OF k1 keeps_throw] by (simp add: inv_throw quiet_def)
  next
    case (Some m)
    then have eq: "next_step w sid b bi li st =
        loop w sid (nextButton m bi) (nextLoop m bi li) st1"
      by (simp add: next_step_def Let_def st1_def)
    have "nextLoop m bi li \<le> N_LOOPS" using li by (simp add: nextLoop_def)
    from loop_ok[OF q1 this, of "nextButton m bi"] obtain st' where
      "loop w sid (nextButton m bi) (nextLoop m bi li) st1 = Some st'" "inv w st'" "keeps {} st1 st'"
      by blast
    then show ?thesis using eq keeps_trans[OF k1, of "{}" st'] by auto
  qed
qed

lemma l_gazeEnd_ok:
  assumes inv: "inv w st" and reg: "beginListeners st = [ListenL lid]"
  shows "\<exists>st'. l_gazeEnd w lid st = Some st' \<and> inv w st' \<and>
     keeps (set_option (l_longGazeTimeout (listens st lid))) st st'"
proof -
  define h where "h = l_longGazeTimeout (listens st lid)"
  define st1 where "st1 = clearTimeout h st"
  define el where "el = elapsedSince (now st) (l_startTime (listens st lid))"
  have q1: "quiet w (ListenL lid) st1"
    unfolding st1_def by (rule quiet_clearTimeout[OF quiet_listening[OF inv reg]])
  have k1: "keeps (set_option h) st st1" unfolding st1_def by (rule keeps_clearTimeout)
  show ?thesis
  proof (cases "num_ge el LONG_GAZE_TIME")
    case False
    then have "l_gazeEnd w lid st = Some st1"
      by (simp add: l_gazeEnd_def Let_def st1_def el_def h_def)
    then show ?thesis using q1 k1 by (simp add: quiet_def h_def)
  next
    case True
    define st2 where "st2 = emit ScanMode (unregisterListeners (ListenL lid) st1)"
    have eq: "l_gazeEnd w lid st = scanMenuK w (callCont w Listen) (mainMenu w) Listen st2"
      using True by (simp add: l_gazeEnd_def Let_def st1_def el_def h_def scan_def scanMenu_def st2_def)
    have i2: "idle w st2"
      unfolding st2_def by (rule idle_emit[OF idle_unregister[OF q1]]) simp
    have k2: "keeps (set_option h) st st2"
      unfolding st2_def
      using keeps_trans[OF keeps_trans[OF k1 keeps_unregister] keeps_emit] by simp
    from scanMenuK_returns[OF callCont_returns i2, of Listen "mainMenu w" Listen]
    obtain st' where "scanMenuK w (callCont w Listen) (mainMenu w) Listen st2 = Some st'"
      "inv w st'" "frame st2 st'" by blast
    then show ?thesis
      using eq keeps_trans[OF k2 frame_keeps, of st'] by (auto simp: h_def)
  qed
qed

lemma l_pressStop_ok:
  assumes inv: "inv w st" and reg: "beginListeners st = [ListenL lid]"
  shows "inv w (l_pressStop lid st) \<and> keeps {} st (l_pressStop lid st)"
proof -
  have q1: "quiet w (ListenL lid) (emit (SpeakSync ''stopping.'') st)"
    using quiet_listening[OF inv reg] by (simp add: quiet_emit)
  have "idle w (unregisterListeners (ListenL lid) (emit (SpeakSync ''stopping.'') st))"
    by (rule idle_unregister[OF q1])
  then have "inv w (l_pressStop lid st)"
    by (simp add: l_pressStop_def inv_emit idle_def)
  moreover have "keeps {} st (l_pressStop lid st)"
    unfolding l_pressStop_def
    using keeps_trans[OF keeps_trans[OF keeps_emit keeps_unregister] keeps_emit] by simp
  ultimately show ?thesis by simp
qed

subsection \<open>The event loop keeps the invariant\<close>

lemma inv_registered:
  assumes "inv w st"
  shows "endListeners st = beginListeners st" "clickListeners st = beginListeners st"
    "beginListeners st = [] \<or> (\<exists>l. beginListeners st = [l] \<and> finishedListeners st = [])"
proof -
  from assms show "endListeners st = beginListeners st" "clickListeners st = beginListeners st"
    by (simp_all add: inv_def inv_listeners_def)
  from assms have "length (beginListeners st) + length (finishedListeners st) \<le> 1"
    by (simp add: inv_def inv_listeners_def)
  then show "beginListeners st = [] \<or> (\<exists>l. beginListeners st = [l] \<and> finishedListeners st = [])"
    by (cases "beginListeners st"; cases "finishedListeners st") auto
qed

lemma quiet_now: "quiet w l (st\<lparr>now := t\<rparr>) = quiet w l st"
  by (simp add: quiet_def inv_now noNext_def)

lemma fire_begin:
  assumes inv: "inv w st"
  shows "\<exists>st'. fire w (t, GestureBegin) st = Some st' \<and> inv w st'"
proof -
  from inv_registered(3)[OF inv] show ?thesis
  proof (elim disjE exE conjE)
    assume "beginListeners st = []"
    then show ?thesis using inv by (simp add: inv_now)
  next
    fix l assume l: "beginListeners st = [l]"
    show ?thesis using l inv
      by (cases l) (simp_all add: inv_gazeBegin inv_l_gazeBegin inv_now)
  qed
qed

lemma fire_end:
  assumes inv: "inv w st"
  shows "\<exists>st'. fire w (t, GestureEnd) st = Some st' \<and> inv w st' \<and>
     keeps {i. \<exists>sid. ScanMenuL sid \<in> set (endListeners st) \<and>
                  (longGazeTimeout (sessions st sid) = Some i \<or> timeout (sessions st sid) = Some i)
               \<or> (\<exists>lid. ListenL lid \<in> set (endListeners st) \<and>
                     l_longGazeTimeout (listens st lid) = Some i)} st st'"
    (is "\<exists>st'. _ \<and> _ \<and> keeps ?U st st'")
proof -
  have e: "endListeners st = beginListeners st" by (rule inv_registered(1)[OF inv])
  have inv': "inv w (st\<lparr>now := t\<rparr>)" using inv by (simp add: inv_now)
  from inv_registered(3)[OF inv] show ?thesis
  proof (elim disjE exE conjE)
    assume "beginListeners st = []"
    then show ?thesis using inv e keeps_weaken[OF keeps_now, of ?U st t]
      by (simp add: inv_now)
  next
    fix l assume l: "beginListeners st = [l]"
    show ?thesis
    proof (cases l)
      case (ScanMenuL sid)
      from gazeEnd_ok[OF inv', of sid] l ScanMenuL obtain st' where
        r: "gazeEnd w sid (st\<lparr>now := t\<rparr>) = Some st'" "inv w st'"
        "keeps (set_option (longGazeTimeout (sessions st sid)) \<union> set_option (timeout (sessions st sid)))
           (st\<lparr>now := t\<rparr>) st'"
        by auto
      have "keeps ?U st st'"
        by (rule keeps_weaken[OF keeps_trans[OF keeps_now r(3)]])
           (auto simp: e l ScanMenuL)
      then show ?thesis using r e l ScanMenuL by simp
    next
      case (ListenL lid)
      from l_gazeEnd_ok[OF inv', of lid] l ListenL obtain st' where
        r: "l_gazeEnd w lid (st\<lparr>now := t\<rparr>) = Some st'" "inv w st'"
        "keeps (set_option (l_longGazeTimeout (listens st lid))) (st\<lparr>now := t\<rparr>) st'"
        by auto
      have "keeps ?U st st'"
        by (rule keeps_weaken[OF keeps_trans[OF keeps_now r(3)]])
           (auto simp: e l ListenL)
      then show ?thesis using r e l ListenL by simp
    qed
  qed
qed

lemma fire_stop:
  assumes inv: "inv w st"
  shows "\<exists>st'. fire w (t, StopClick) st = Some st' \<and> inv w st' \<and>
     keeps {i. \<exists>sid. timeout (sessions st sid) = Some i} st st'"
    (is "\<exists>st'. _ \<and> _ \<and> keeps ?U st st'")
proof -
  have e: "clickListeners st = beginListeners st" by (rule inv_registered(2)[OF inv])
  have inv': "inv w (st\<lparr>now := t\<rparr>)" using inv by (simp add: inv_now)
  from inv_registered(3)[OF inv] show ?thesis
  proof (elim disjE exE conjE)
    assume "beginListeners st = []"
    then show ?thesis using inv e keeps_weaken[OF keeps_now, of ?U st t]
      by (simp add: inv_now)
  next
    fix l assume l: "beginListeners st = [l]"
    show ?thesis
    proof (cases l)
      case (ScanMenuL sid)
      from pressStop_ok[OF inv', of sid] l ScanMenuL have
        r: "inv w (pressStop sid (st\<lparr>now := t\<rparr>))"
        "keeps (set_option (timeout (sessions st sid))) (st\<lparr>now := t\<rparr>) (pressStop sid (st\<lparr>now := t\<rparr>))"
        by auto
      have "keeps ?U st (pressStop sid (st\<lparr>now := t\<rparr>))"
        by (rule keeps_weaken[OF keeps_trans[OF keeps_now r(2)]]) auto
      then show ?thesis using r e l ScanMenuL by simp
    next
      case (ListenL lid)
      from l_pressStop_ok[OF inv', of lid] l ListenL have
        r: "inv w (l_pressStop lid (st\<lparr>now := t\<rparr>))"
        "keeps {} (st\<lparr>now := t\<rparr>) (l_pressStop lid (st\<lparr>now := t\<rparr>))"
        by auto
      have "keeps ?U st (l_pressStop lid (st\<lparr>now := t\<rparr>))"
        by (rule keeps_weaken[OF keeps_trans[OF keeps_now r(2)]]) auto
      then show ?thesis using r e l ListenL by simp
    qed
  qed
qed

lemma fire_timer:
  assumes inv: "inv w st"
  shows "\<exists>st'. fire w (t, TimerFire i) st = Some st' \<and> inv w st' \<and> keeps {i} st st'"
proof (cases "timers st i")
  case None
  then show ?thesis using inv keeps_weaken[OF keeps_now, of "{i}" st t] by (simp add: inv_now)
next
  case (Some p)
  obtain due a where p: "p = (due, a)" by (cases p)
  show ?thesis
  proof (cases "due \<le> t")
    case False
    then show ?thesis using Some p inv keeps_weaken[OF keeps_now, of "{i}" st t]
      by (simp add: inv_now)
  next
    case True
    define st1 where "st1 = st\<lparr>now := t, timers := (timers st)(i := None)\<rparr>"
    have st1: "st1 = (st\<lparr>now := t\<rparr>)\<lparr>timers := (timers (st\<lparr>now := t\<rparr>))(i := None)\<rparr>"
      by (simp add: st1_def)
    have eq: "fire w (t, TimerFire i) st = runTimer w a st1"
      using Some p True by (simp add: st1_def)
    have inv': "inv w (st\<lparr>now := t\<rparr>)" using inv by (simp add: inv_now)
    have k1: "keeps {i} st st1"
      unfolding st1 using keeps_trans[OF keeps_now keeps_timer_gone] by simp
    show ?thesis
    proof (cases a)
      case SignalLongGaze
      have "inv w (signalLongGaze st1)"
        unfolding st1 signalLongGaze_def using inv_timer_gone[OF inv'] by (simp add: inv_emit)
      moreover have "keeps {i} st (signalLongGaze st1)"
        unfolding signalLongGaze_def using keeps_trans[OF k1 keeps_emit] by simp
      ultimately show ?thesis using eq SignalLongGaze by simp
    next
      case (Next sid b bi li)
      have t': "timers (st\<lparr>now := t\<rparr>) i = Some (due, Next sid b bi li)"
        using Some p Next by simp
      have q: "quiet w (ScanMenuL sid) st1" unfolding st1 by (rule quiet_fired[OF inv' t'])
      have li: "li < N_LOOPS" using inv Some p Next by (auto simp: inv_def inv_timers_def)
      from next_step_ok[OF q li, of b bi] obtain st' where
        "next_step w sid b bi li st1 = Some st'" "inv w st'" "keeps {} st1 st'" by blast
      then show ?thesis using eq Next keeps_trans[OF k1, of "{}" st'] by auto
    qed
  qed
qed

lemma inv_finished_gone: "inv w st \<Longrightarrow> inv w (st\<lparr>finishedListeners := []\<rparr>)"
  by (simp add: inv_def inv_listeners_def inv_timers_def inv_sessions_def)

lemma keeps_finished: "keeps {} st (st\<lparr>finishedListeners := f\<rparr>)"
  by (simp add: keeps_def handleFree_def)

lemma fire_finished:
  assumes inv: "inv w st"
  shows "\<exists>st'. fire w (t, ButtonFinished b) st = Some st' \<and> inv w st' \<and> keeps {} st st'"
proof (cases "finishedListeners st")
  case Nil
  then have "fire w (t, ButtonFinished b) st = Some (st\<lparr>now := t, finishedListeners := []\<rparr>)"
    by simp
  moreover have "st\<lparr>now := t, finishedListeners := []\<rparr> = st\<lparr>now := t\<rparr>"
    using Nil by simp
  ultimately show ?thesis using inv keeps_now by (simp add: inv_now)
next
  case (Cons p ps)
  obtain b' c where p: "p = (b', c)" by (cases p)
  from inv Cons have ps: "ps = []" and reg: "beginListeners st = []"
    by (simp_all add: inv_def inv_listeners_def)
  show ?thesis
  proof (cases "b' = b")
    case False
    then have "fire w (t, ButtonFinished b) st = Some (st\<lparr>now := t, finishedListeners := [p]\<rparr>)"
      using Cons p ps by simp
    moreover have "st\<lparr>now := t, finishedListeners := [p]\<rparr> = st\<lparr>now := t\<rparr>"
      using Cons ps by simp
    ultimately show ?thesis using inv keeps_now by (simp add: inv_now)
  next
    case True
    define st1 where "st1 = (st\<lparr>now := t\<rparr>)\<lparr>finishedListeners := []\<rparr>"
    have eq: "fire w (t, ButtonFinished b) st =
        (case callCont w c st1 of None \<Rightarrow> None | Some st' \<Rightarrow> Some st')"
      using Cons p ps True by (simp add: st1_def split: option.splits)
    have i1: "idle w st1"
      using inv reg inv_finished_gone[of w "st\<lparr>now := t\<rparr>"]
      by (simp add: idle_def st1_def inv_now)
    have k1: "keeps {} st st1"
      unfolding st1_def using keeps_trans[OF keeps_now keeps_finished] by simp
    from callCont_idle[OF i1, of c] obtain st' where
      "callCont w c st1 = Some st'" "inv w st'" "frame st1 st'" by blast
    then show ?thesis using eq keeps_trans[OF k1 frame_keeps, of st'] by auto
  qed
qed

lemma fire_value:
  assumes inv: "inv w st"
  shows "\<exists>st'. fire w (t, ButtonValue b e) st = Some st' \<and> inv w st' \<and> keeps {} st st'"
proof -
  have "st\<lparr>now := t, buttonEmpty := (buttonEmpty st)(b := e)\<rparr> =
        (st\<lparr>now := t\<rparr>)\<lparr>buttonEmpty := (buttonEmpty st)(b := e)\<rparr>" by simp
  then show ?thesis
    using inv keeps_trans[OF keeps_now[of st t]
        keeps_buttonEmpty[of "st\<lparr>now := t\<rparr>" "(buttonEmpty st)(b := e)"]]
    by (simp add: inv_now inv_buttonEmpty)
qed

lemma fire_inv:
  assumes "inv w st"
  shows "\<exists>st'. fire w (t, e) st = Some st' \<and> inv w st'"
proof (cases e)
  case GestureBegin then show ?thesis using fire_begin[OF assms] by simp
next
  case GestureEnd then show ?thesis using fire_end[OF assms, of t] by blast
next
  case StopClick then show ?thesis using fire_stop[OF assms, of t] by blast
next
  case (TimerFire i) then show ?thesis using fire_timer[OF assms, of t i] by blast
next
  case (ButtonFinished b) then show ?thesis using fire_finished[OF assms, of t b] by blast
next
  case (ButtonValue b v) then show ?thesis using fire_value[OF assms, of t b v] by blast
qed

lemma run_inv:
  assumes "inv w st"
  shows "\<exists>st'. run w es st = Some st' \<and> inv w st'"
  using assms
proof (induction es arbitrary: st)
  case Nil
  then show ?case by simp
next
  case (Cons e es)
  obtain t ev where e: "e = (t, ev)" by (cases e)
  from fire_inv[OF Cons.prems, of t ev] obtain st1 where
    "fire w (t, ev) st = Some st1" "inv w st1" by blast
  with Cons.IH[of st1] e show ?case by simp
qed

lemma idle_initial: "idle w (initial em)"
  by (simp add: idle_def inv_def inv_listeners_def inv_timers_def inv_sessions_def initial_def
      live_def oneAtATime_def)

subsection \<open>After the scanner has stopped\<close>

lemma invokes_append: "invokes (xs @ ys) = invokes xs @ invokes ys"
  by (induction xs rule: invokes.induct) simp_all

lemma halted_fire:
  assumes "halted st"
  shows "\<exists>st'. fire w (t, e) st = Some st' \<and> halted st' \<and>
           invokes (trace st') = invokes (trace st) \<and> presses (trace st') = presses (trace st)"
proof (cases e)
  case GestureBegin
  with assms show ?thesis by (simp add: halted_def noNext_def)
next
  case GestureEnd
  with assms show ?thesis by (simp add: halted_def noNext_def)
next
  case StopClick
  with assms show ?thesis by (simp add: halted_def noNext_def)
next
  case (TimerFire i)
  show ?thesis
  proof (cases "timers st i")
    case None
    with assms TimerFire show ?thesis by (simp add: halted_def noNext_def)
  next
    case (Some p)
    obtain due a where p: "p = (due, a)" by (cases p)
    from assms Some p have a: "a = SignalLongGaze" by (auto simp: halted_def noNext_def)
    show ?thesis
    proof (cases "due \<le> t")
      case True
      with assms TimerFire Some p a show ?thesis
        by (simp add: halted_def noNext_def signalLongGaze_def emit_def invokes_append
            presses_append)
    next
      case False
      with assms TimerFire Some p show ?thesis by (simp add: halted_def noNext_def)
    qed
  qed
next
  case (ButtonFinished b)
  with assms show ?thesis by (simp add: halted_def noNext_def)
next
  case (ButtonValue b v)
  with assms show ?thesis by (simp add: halted_def noNext_def)
qed

lemma halted_run:
  assumes "halted st"
  shows "\<exists>st'. run w es st = Some st' \<and> halted st' \<and>
           invokes (trace st') = invokes (trace st) \<and> presses (trace st') = presses (trace st)"
  using assms
proof (induction es arbitrary: st)
  case Nil
  then show ?case by simp
next
  case (Cons e es)
  obtain t ev where e: "e = (t, ev)" by (cases e)
  from halted_fire[OF Cons.prems, of w t ev] obtain st1 where
    s1: "fire w (t, ev) st = Some st1" "halted st1"
    "invokes (trace st1) = invokes (trace st)" "presses (trace st1) = presses (trace st)"
    by blast
  from Cons.IH[OF s1(2)] obtain st' where
    "run w es st1 = Some st'" "halted st'"
    "invokes (trace st') = invokes (trace st1)" "presses (trace st') = presses (trace st1)"
    by blast
  with s1 e show ?case by simp
qed

subsection \<open>What the events keep\<close>


lemma handleFree_gazeBegin:
  assumes "handleFree i S st"
  shows "handleFree i S (gazeBegin sid st)" "timers (gazeBegin sid st) i = timers st i"
  using assms by (auto simp: handleFree_def gazeBegin_def setTimeout_def Let_def)

lemma handleFree_l_gazeBegin:
  assumes "handleFree i S st"
  shows "handleFree i S (l_gazeBegin lid st)" "timers (l_gazeBegin lid st) i = timers st i"
  using assms by (auto simp: handleFree_def l_gazeBegin_def setTimeout_def Let_def)

lemma handleFree_now: "handleFree i S (st\<lparr>now := t\<rparr>) = handleFree i S st"
  by (simp add: handleFree_def)

lemma keeps_timer:
  assumes "keeps U st st'" "handleFree i S st" "i \<notin> U"
  shows "handleFree i S st'" "timers st' i = timers st i"
proof -
  from assms(1,2) show "handleFree i S st'" by (simp add: keeps_def)
  from assms(2) have "i < nextTimer st" by (simp add: handleFree_def)
  with assms(1,3) show "timers st' i = timers st i" by (simp add: keeps_def)
qed

lemma fire_timer_kept:
  assumes inv: "inv w st" and free: "handleFree i S st" and ne: "e \<noteq> TimerFire i"
    and S: "e = GestureEnd \<longrightarrow> (\<forall>sid \<in> S. ScanMenuL sid \<notin> set (endListeners st))"
  shows "\<exists>st'. fire w (t, e) st = Some st' \<and> inv w st' \<and> handleFree i S st' \<and>
           timers st' i = timers st i"
proof (cases e)
  case GestureBegin
  from inv_registered(3)[OF inv] show ?thesis
  proof (elim disjE exE conjE)
    assume "beginListeners st = []"
    then show ?thesis using GestureBegin inv free by (simp add: inv_now handleFree_now)
  next
    fix l assume l: "beginListeners st = [l]"
    have inv': "inv w (st\<lparr>now := t\<rparr>)" using inv by (simp add: inv_now)
    have free': "handleFree i S (st\<lparr>now := t\<rparr>)" using free by (simp add: handleFree_now)
    show ?thesis
    proof (cases l)
      case (ScanMenuL sid)
      then show ?thesis
        using GestureBegin l inv_gazeBegin[OF inv', of sid] handleFree_gazeBegin[OF free', of sid]
        by simp
    next
      case (ListenL lid)
      then show ?thesis
        using GestureBegin l inv_l_gazeBegin[OF inv', of lid] handleFree_l_gazeBegin[OF free', of lid]
        by simp
    qed
  qed
next
  case GestureEnd
  from fire_end[OF inv, of t] obtain st' U where
    r: "fire w (t, GestureEnd) st = Some st'" "inv w st'" "keeps U st st'"
    and U: "U = {i. \<exists>sid. ScanMenuL sid \<in> set (endListeners st) \<and>
                  (longGazeTimeout (sessions st sid) = Some i \<or> timeout (sessions st sid) = Some i)
               \<or> (\<exists>lid. ListenL lid \<in> set (endListeners st) \<and>
                     l_longGazeTimeout (listens st lid) = Some i)}"
    by blast
  have "i \<notin> U"
  proof
    assume "i \<in> U"
    then obtain sid where
      "(ScanMenuL sid \<in> set (endListeners st) \<and>
          (longGazeTimeout (sessions st sid) = Some i \<or> timeout (sessions st sid) = Some i))
       \<or> (\<exists>lid. ListenL lid \<in> set (endListeners st) \<and>
               l_longGazeTimeout (listens st lid) = Some i)"
      unfolding U by blast
    then show False
      using free S GestureEnd unfolding handleFree_def by blast
  qed
  from keeps_timer[OF r(3) free this] r GestureEnd show ?thesis by simp
next
  case StopClick
  from fire_stop[OF inv, of t] obtain st' where
    r: "fire w (t, StopClick) st = Some st'" "inv w st'"
    "keeps {i. \<exists>sid. timeout (sessions st sid) = Some i} st st'" by blast
  have "i \<notin> {i. \<exists>sid. timeout (sessions st sid) = Some i}"
    using free unfolding handleFree_def by blast
  from keeps_timer[OF r(3) free this] r StopClick show ?thesis by simp
next
  case (TimerFire j)
  from fire_timer[OF inv, of t j] obtain st' where
    r: "fire w (t, TimerFire j) st = Some st'" "inv w st'" "keeps {j} st st'" by blast
  have "i \<notin> {j}" using ne TimerFire by simp
  from keeps_timer[OF r(3) free this] r TimerFire show ?thesis by simp
next
  case (ButtonFinished b)
  from fire_finished[OF inv, of t b] obtain st' where
    r: "fire w (t, ButtonFinished b) st = Some st'" "inv w st'" "keeps {} st st'" by blast
  from keeps_timer[OF r(3) free] r ButtonFinished show ?thesis by simp
next
  case (ButtonValue b v)
  from fire_value[OF inv, of t b v] obtain st' where
    r: "fire w (t, ButtonValue b v) st = Some st'" "inv w st'" "keeps {} st st'" by blast
  from keeps_timer[OF r(3) free] r ButtonValue show ?thesis by simp
qed

lemma run_orphan_kept:
  assumes "inv w st" "handleFree i {} st" "\<forall>e \<in> set es. snd e \<noteq> TimerFire i"
  shows "\<exists>st'. run w es st = Some st' \<and> inv w st' \<and> handleFree i {} st' \<and>
           timers st' i = timers st i"
  using assms
proof (induction es arbitrary: st)
  case Nil
  then show ?case by simp
next
  case (Cons e es)
  obtain t ev where e: "e = (t, ev)" by (cases e)
  from Cons.prems(3) e have ne: "ev \<noteq> TimerFire i" by simp
  from fire_timer_kept[OF Cons.prems(1,2) ne, of t] obtain st1 where
    s1: "fire w (t, ev) st = Some st1" "inv w st1" "handleFree i {} st1"
    "timers st1 i = timers st i" by auto
  from Cons.IH[OF s1(2,3)] Cons.prems(3) obtain st' where
    "run w es st1 = Some st'" "inv w st'" "handleFree i {} st'" "timers st' i = timers st1 i"
    by auto
  with s1 e show ?case by simp
qed

lemma run_armed_kept:
  assumes "inv w st" "handleFree i S st"
    "\<forall>e \<in> set es. snd e \<noteq> TimerFire i \<and> snd e \<noteq> GestureEnd"
  shows "\<exists>st'. run w es st = Some st' \<and> inv w st' \<and> handleFree i S st' \<and>
           timers st' i = timers st i"
  using assms
proof (induction es arbitrary: st)
  case Nil
  then show ?case by simp
next
  case (Cons e es)
  obtain t ev where e: "e = (t, ev)" by (cases e)
  from Cons.prems(3) e have ne: "ev \<noteq> TimerFire i" "ev \<noteq> GestureEnd" by simp_all
  from fire_timer_kept[OF Cons.prems(1,2) ne(1), of t] ne(2) obtain st1 where
    s1: "fire w (t, ev) st = Some st1" "inv w st1" "handleFree i S st1"
    "timers st1 i = timers st i" by auto
  from Cons.IH[OF s1(2,3)] Cons.prems(3) obtain st' where
    "run w es st1 = Some st'" "inv w st'" "handleFree i S st'" "timers st' i = timers st1 i"
    by auto
  with s1 e show ?case by simp
qed


subsection \<open>Gestures\<close>

lemma begin_arms:
  assumes inv: "inv w st" and reg: "beginListeners st = [ScanMenuL sid]"
  shows "fire w (t0, GestureBegin) st = Some (gazeBegin sid (st\<lparr>now := t0\<rparr>))"
    and "inv w (gazeBegin sid (st\<lparr>now := t0\<rparr>))"
    and "handleFree (nextTimer st) {sid} (gazeBegin sid (st\<lparr>now := t0\<rparr>))"
    and "timers (gazeBegin sid (st\<lparr>now := t0\<rparr>)) (nextTimer st) =
           Some (t0 + LONG_GAZE_TIME, SignalLongGaze)"
    and "gazeButton (sessions (gazeBegin sid (st\<lparr>now := t0\<rparr>)) sid) = currentButton (sessions st sid)"
    and "startTime (sessions (gazeBegin sid (st\<lparr>now := t0\<rparr>)) sid) = Some t0"
    and "longGazeTimeout (sessions (gazeBegin sid (st\<lparr>now := t0\<rparr>)) sid) = Some (nextTimer st)"
    and "nextClosure (gazeBegin sid (st\<lparr>now := t0\<rparr>)) = nextClosure st"
    and "beginListeners (gazeBegin sid (st\<lparr>now := t0\<rparr>)) = [ScanMenuL sid]"
    and "trace (gazeBegin sid (st\<lparr>now := t0\<rparr>)) = trace st"
proof -
  show "fire w (t0, GestureBegin) st = Some (gazeBegin sid (st\<lparr>now := t0\<rparr>))"
    using reg by simp
  show "inv w (gazeBegin sid (st\<lparr>now := t0\<rparr>))"
    using inv by (simp add: inv_gazeBegin inv_now)
  have lt: "timeout (sessions st s) \<noteq> Some (nextTimer st)"
    "longGazeTimeout (sessions st s) \<noteq> Some (nextTimer st)"
    "l_longGazeTimeout (listens st l) \<noteq> Some (nextTimer st)" for s l
    using inv_handles(1)[OF inv, of s "nextTimer st"] inv_handles(2)[OF inv, of s "nextTimer st"]
      inv_handles(3)[OF inv, of l "nextTimer st"] by auto
  show "handleFree (nextTimer st) {sid} (gazeBegin sid (st\<lparr>now := t0\<rparr>))"
    using lt by (simp add: handleFree_def gazeBegin_def setTimeout_def Let_def)
qed (simp_all add: gazeBegin_def setTimeout_def Let_def reg)

lemma second_begin_orphans:
  assumes "handleFree i {sid} st"
  shows "handleFree i {} (gazeBegin sid st)" "timers (gazeBegin sid st) i = timers st i"
  using assms by (auto simp: handleFree_def gazeBegin_def setTimeout_def Let_def)

lemma beep_fires:
  assumes "timers st i = Some (d, SignalLongGaze)" "d \<le> t"
  shows "\<exists>st'. fire w (t, TimerFire i) st = Some st' \<and>
           trace st' = trace st @ [Beep BEEP_FREQ BEEP_DURATION]"
  using assms by (simp add: signalLongGaze_def emit_def)

lemma gazeEnd_long:
  assumes inv: "inv w st" and reg: "beginListeners st = [ScanMenuL sid]"
    and start: "startTime (sessions st sid) = Some t0"
    and long: "int LONG_GAZE_TIME \<le> int t - int t0"
  shows "\<exists>st' xs. fire w (t, GestureEnd) st = Some st' \<and>
           trace st' = trace st @
             (if currentButton (sessions st sid) \<noteq> gazeButton (sessions st sid)
              then [Toggle (the (currentButton (sessions st sid)))] else []) @
             [RemoveListeners (ScanMenuL sid), Invoke (s_cb (sessions st sid))] @ xs \<and>
           presses xs = [] \<and> ScanMenuL sid \<notin> set (beginListeners st') \<and>
           (\<forall>i. timeout (sessions st sid) = Some i \<longrightarrow> timers st' i = None)"
proof -
  let ?s = "sessions st sid"
  let ?st1 = "clearTimeout (longGazeTimeout ?s) (st\<lparr>now := t\<rparr>)"
  let ?st2 = "clearTimeout (timeout ?s) ?st1"
  let ?tg = "(if currentButton ?s \<noteq> gazeButton ?s then [Toggle (the (currentButton ?s))] else [])"
  let ?st3 = "(if currentButton ?s \<noteq> gazeButton ?s then toggle (the (currentButton ?s)) ?st2 else ?st2)"
  let ?st4 = "unregister sid ?st3"
  have e: "endListeners st = [ScanMenuL sid]" using inv_registered(1)[OF inv] reg by simp
  have cur: "currentButton ?s \<noteq> gazeButton ?s \<Longrightarrow> \<exists>c. currentButton ?s = Some c"
    using inv_gaze_current[OF inv, of sid] by (cases "currentButton ?s") auto
  have inv1: "inv w ?st1"
    using inv by (simp add: inv_clearTimeout inv_now)
  have same1: "sessions ?st1 = sessions st" "beginListeners ?st1 = beginListeners st"
    by (cases "longGazeTimeout ?s"; simp add: clearTimeout_def)+
  have q2: "quiet w (ScanMenuL sid) ?st2"
    using quiet_cleared[OF inv1, of sid] reg same1 by simp
  have q3: "quiet w (ScanMenuL sid) ?st3" using q2 by (simp add: quiet_toggle)
  have f3: "trace ?st3 = trace st @ ?tg"
    "\<forall>i. timeout ?s = Some i \<longrightarrow> timers ?st3 i = None" "nextTimer ?st3 = nextTimer st"
    "nextClosure ?st3 = nextClosure st"
    by (cases "longGazeTimeout ?s"; cases "timeout ?s"; simp add: clearTimeout_def toggle_def emit_def)+
  have "gazeEnd w sid (st\<lparr>now := t\<rparr>) = callCont w (s_cb ?s) ?st4"
  proof (cases "currentButton ?s \<noteq> gazeButton ?s")
    case True
    with cur obtain c where "currentButton ?s = Some c" by blast
    with True start long show ?thesis
      by (simp add: gazeEnd_def gazeEndAct_def Let_def elapsedSince_def num_ge_def num_lt_def
          SHORT_GAZE_TIME_def LONG_GAZE_TIME_def toggle_def emit_def clearTimeout_fields)
  next
    case False
    with start long show ?thesis
      by (simp add: gazeEnd_def gazeEndAct_def Let_def elapsedSince_def num_ge_def num_lt_def
          SHORT_GAZE_TIME_def LONG_GAZE_TIME_def clearTimeout_fields)
  qed
  then have eq: "fire w (t, GestureEnd) st =
      (case callCont w (s_cb ?s) ?st4 of None \<Rightarrow> None | Some st' \<Rightarrow> Some st')"
    using e by (simp split: option.splits)
  have i4: "idle w ?st4" unfolding unregister_def by (rule idle_unregister[OF q3])
  from callCont_invoked[OF i4, of "s_cb ?s"] obtain st' where
    r: "callCont w (s_cb ?s) ?st4 = Some st'" "inv w st'"
    "frame (emit (Invoke (s_cb ?s)) ?st4) st'" by blast
  from frame_trace[OF r(3)] obtain xs where
    xs: "trace st' = trace (emit (Invoke (s_cb ?s)) ?st4) @ xs" "presses xs = []"
    by blast
  have tr: "trace st' = trace st @ ?tg @ [RemoveListeners (ScanMenuL sid), Invoke (s_cb ?s)] @ xs"
    unfolding xs(1) using f3(1) by (simp add: emit_def unregister_def unregisterListeners_def)
  have sidlt: "sid < nextClosure st"
    using inv reg by (simp add: inv_def inv_listeners_def)
  have notreg: "ScanMenuL sid \<notin> set (beginListeners st')"
  proof
    assume "ScanMenuL sid \<in> set (beginListeners st')"
    with r(3) have "ScanMenuL sid \<in> set (beginListeners (emit (Invoke (s_cb ?s)) ?st4))
        \<or> nextClosure (emit (Invoke (s_cb ?s)) ?st4) \<le> sid"
      by (auto simp: frame_def)
    moreover have "beginListeners (emit (Invoke (s_cb ?s)) ?st4) = []"
      using i4 by (simp add: idle_def emit_def)
    moreover have "nextClosure (emit (Invoke (s_cb ?s)) ?st4) = nextClosure st"
      using f3(4) by (simp add: emit_def unregister_def unregisterListeners_def)
    ultimately show False using sidlt by simp
  qed
  have cleared: "\<forall>i. timeout ?s = Some i \<longrightarrow> timers st' i = None"
  proof (intro allI impI)
    fix i assume h: "timeout ?s = Some i"
    then have "i < nextTimer st" using inv_handles(1)[OF inv, of sid i] by simp
    then have "i < nextTimer (emit (Invoke (s_cb ?s)) ?st4)"
      using f3(3) by (simp add: emit_def unregister_def unregisterListeners_def)
    with r(3) have "timers st' i = timers (emit (Invoke (s_cb ?s)) ?st4) i"
      by (simp add: frame_def)
    also have "\<dots> = timers ?st3 i"
      by (simp add: emit_def unregister_def unregisterListeners_def)
    finally show "timers st' i = None" using f3(2) h by simp
  qed
  show ?thesis
    using eq r(1) tr xs(2) notreg cleared by auto
qed


subsection \<open>The scan without gestures\<close>

lemma loop_over:
  "menus w (s_menu (sessions st sid)) = Some mn \<Longrightarrow>
   loop w sid j N_LOOPS st = callCont w (s_cb (sessions st sid)) (unregister sid st)"
  by (simp add: loop_def loopK_over)

lemma loop_visit:
  assumes "menus w (s_menu (sessions st sid)) = Some mn" "li < N_LOOPS"
    "getButton (buttons mn) j = Some b" "\<not> buttonEmpty st b"
  shows "loop w sid j li st = Some (step w sid b j li st)"
  unfolding loop_def using assms by (subst loopK.simps) (simp add: isLoopOver_def)

lemma loop_skip:
  assumes "menus w (s_menu (sessions st sid)) = Some mn" "li < N_LOOPS"
    "getButton (buttons mn) j = Some b" "buttonEmpty st b"
  shows "loop w sid j li st = loop w sid 0 (li + 1) st"
  unfolding loop_def using assms by (subst loopK.simps) (simp add: isLoopOver_def)

lemma scanned_nth:
  assumes "j < length (scanned em bs)"
  shows "getButton bs j = Some (scanned em bs ! j)" "\<not> em (scanned em bs ! j)"
proof -
  have le: "length (scanned em bs) \<le> length bs"
    by (simp add: scanned_def length_takeWhile_le)
  have "scanned em bs ! j = bs ! j"
    using assms by (simp add: scanned_def takeWhile_nth)
  with assms le show "getButton bs j = Some (scanned em bs ! j)"
    by (simp add: getButton_def)
  have "scanned em bs ! j \<in> set (takeWhile (\<lambda>b. \<not> em b) bs)"
    using assms by (simp add: scanned_def)
  then show "\<not> em (scanned em bs ! j)" by (rule set_takeWhileD[THEN conjunct2])
qed

lemma scanned_stop:
  assumes "length (scanned em bs) < length bs"
  shows "getButton bs (length (scanned em bs)) = Some (bs ! length (scanned em bs))"
    "em (bs ! length (scanned em bs))"
  using assms nth_length_takeWhile[of "\<lambda>b. \<not> em b" bs]
  by (simp_all add: scanned_def getButton_def)

lemma scanned_le: "length (scanned em bs) \<le> length bs"
  by (simp add: scanned_def length_takeWhile_le)

lemma step_fields:
  "timeout (sessions (step w sid b bi li st) sid) = Some (nextTimer st)"
  "timers (step w sid b bi li st) (nextTimer st) = Some (now st + getWaitTime w b, Next sid b bi li)"
  "trace (step w sid b bi li st) = trace st @ [Toggle b, Announce b]"
  "beginListeners (step w sid b bi li st) = beginListeners st"
  "s_menu (sessions (step w sid b bi li st) sid) = s_menu (sessions st sid)"
  "s_cb (sessions (step w sid b bi li st) sid) = s_cb (sessions st sid)"
  "buttonEmpty (step w sid b bi li st) = buttonEmpty st"
  "nextClosure (step w sid b bi li st) = nextClosure st"
  "buttonOn (step w sid b bi li st) = (buttonOn st)(b := \<not> buttonOn st b)"
  by (simp_all add: step_def Let_def prims)

text \<open>A new pass starts at the first button, or the scan is over.\<close>

lemma loop_restart:
  assumes menu: "menus w (s_menu (sessions st sid)) = Some mn"
    and p: "scanned (buttonEmpty st) (buttons mn) \<noteq> []" and l: "l \<le> N_LOOPS"
  shows "loop w sid 0 l st =
     (if l = N_LOOPS then callCont w (s_cb (sessions st sid)) (unregister sid st)
      else Some (step w sid (scanned (buttonEmpty st) (buttons mn) ! 0) 0 l st))"
proof (cases "l = N_LOOPS")
  case True
  then show ?thesis using loop_over[OF menu] by simp
next
  case False
  with l have lt: "l < N_LOOPS" by simp
  from p have "0 < length (scanned (buttonEmpty st) (buttons mn))" by simp
  from scanned_nth[OF this] loop_visit[OF menu lt] False show ?thesis by simp
qed

text \<open>After the visit of button \<open>j\<close>: the next button of the pass, or a new pass.\<close>

lemma loop_advance:
  assumes menu: "menus w (s_menu (sessions st sid)) = Some mn"
    and j: "j < length (scanned (buttonEmpty st) (buttons mn))" and li: "li < N_LOOPS"
  shows "loop w sid (nextButton mn j) (nextLoop mn j li) st =
     (if Suc j < length (scanned (buttonEmpty st) (buttons mn))
      then Some (step w sid (scanned (buttonEmpty st) (buttons mn) ! Suc j) (Suc j) li st)
      else loop w sid 0 (li + 1) st)"
proof -
  let ?bs = "buttons mn"
  let ?p = "scanned (buttonEmpty st) ?bs"
  have le: "length ?p \<le> length ?bs" by (rule scanned_le)
  show ?thesis
  proof (cases "Suc j < length ?p")
    case True
    with le have "nextButton mn j = Suc j" "nextLoop mn j li = li"
      by (simp_all add: nextButton_def nextLoop_def isLastButton_def)
    with True scanned_nth[OF True] loop_visit[OF menu li] show ?thesis by simp
  next
    case False
    with j have last: "Suc j = length ?p" by simp
    show ?thesis
    proof (cases "length ?p = length ?bs")
      case True
      with last have "nextButton mn j = 0" "nextLoop mn j li = li + 1"
        by (simp_all add: nextButton_def nextLoop_def isLastButton_def)
      with False show ?thesis by simp
    next
      case ne: False
      with le have lt: "length ?p < length ?bs" by simp
      with last have "nextButton mn j = length ?p" "nextLoop mn j li = li"
        by (simp_all add: nextButton_def nextLoop_def isLastButton_def)
      with False scanned_stop[OF lt] loop_skip[OF menu li] show ?thesis by simp
    qed
  qed
qed

lemma toggled_twice: "(B(b := \<not> B b))(b := \<not> (B(b := \<not> B b)) b) = B"
  by (simp add: fun_eq_iff)

lemma sweep_done:
  assumes "timeout (sessions st sid) = None \<or>
           (\<exists>h. timeout (sessions st sid) = Some h \<and> timers st h = None)"
  shows "sweep w sid st = Some st"
  using assms by (subst sweep.simps) auto

lemma sweep_fire:
  assumes "timeout (sessions st sid) = Some h" "timers st h = Some (due, a)"
    "fire w (max due (now st), TimerFire h) st = Some st1"
  shows "sweep w sid st = sweep w sid st1"
  using assms by (subst sweep.simps) simp

lemma invokes_visits: "invokes (concat (map visit p)) = []"
  by (induction p) (simp_all add: invokes_append visit_def)

lemma presses_visits: "presses (concat (map visit p)) = []"
  by (induction p) (simp_all add: presses_append visit_def)

lemma invokes_passes: "invokes (concat (replicate n (concat (map visit p)))) = []"
  by (induction n) (simp_all add: invokes_append invokes_visits)

lemma presses_passes: "presses (concat (replicate n (concat (map visit p)))) = []"
  by (induction n) (simp_all add: presses_append presses_visits)

lemma passes_Suc:
  assumes "Suc li < N_LOOPS"
  shows "N_LOOPS - 1 - li = Suc (N_LOOPS - 1 - Suc li)"
  using assms by simp

lemma visits_first:
  assumes "p \<noteq> []"
  shows "concat (map visit p) = visit (p ! 0) @ concat (map visit (drop 1 p))"
  using assms by (cases p) simp_all

text \<open>
  From a pending step timer for button \<open>j\<close> of pass \<open>li\<close>: the timers run one after the
  other, the rest of the pass and the passes left are made, the listeners are removed and
  the callback is called.
\<close>

lemma sweep_from:
  fixes w m mn em cb sid
  defines "p \<equiv> scanned em (buttons mn)"
  assumes menu: "menus w m = Some mn"
  shows "\<lbrakk>inv w st; timers st h = Some (due, Next sid (p ! j) j li);
          s_menu (sessions st sid) = m; s_cb (sessions st sid) = cb; buttonEmpty st = em;
          j < length p\<rbrakk>
     \<Longrightarrow> \<exists>st_u st'. sweep w sid st = Some st' \<and> callCont w cb st_u = Some st' \<and> idle w st_u \<and>
           nextClosure st_u = nextClosure st \<and>
           buttonOn st_u = (buttonOn st)(p ! j := \<not> buttonOn st (p ! j)) \<and>
           trace st_u = trace st @ Toggle (p ! j) # concat (map visit (drop (Suc j) p)) @
              concat (replicate (N_LOOPS - 1 - li) (concat (map visit p))) @
              [RemoveListeners (ScanMenuL sid)]"
proof (induction "(N_LOOPS - 1 - li) * length p + (length p - 1 - j)"
         arbitrary: st h due j li rule: less_induct)
  case less
  note inv = less.prems(1) and tm = less.prems(2) and sm = less.prems(3) and sc = less.prems(4)
    and em = less.prems(5) and j = less.prems(6)
  from inv_next_timer[OF inv tm]
  have reg: "beginListeners st = [ScanMenuL sid]" and th: "timeout (sessions st sid) = Some h"
    and li: "li < N_LOOPS" by simp_all
  define t where "t = max due (now st)"
  define st_f where "st_f = toggle (p ! j) (st\<lparr>now := t, timers := (timers st)(h := None)\<rparr>)"
  have fields: "s_menu (sessions st_f sid) = m" "s_cb (sessions st_f sid) = cb"
    "buttonEmpty st_f = em" "trace st_f = trace st @ [Toggle (p ! j)]"
    "sessions st_f = sessions st" "timers st_f h = None"
    "nextClosure st_f = nextClosure st" "nextTimer st_f = nextTimer st"
    "buttonOn st_f = (buttonOn st)(p ! j := \<not> buttonOn st (p ! j))"
    using sm sc em by (simp_all add: st_f_def toggle_def emit_def)
  have menu_f: "menus w (s_menu (sessions st_f sid)) = Some mn"
    using menu fields by simp
  have fire_eq: "fire w (t, TimerFire h) st = loop w sid (nextButton mn j) (nextLoop mn j li) st_f"
    using tm menu_f by (simp add: t_def next_step_def Let_def st_f_def)
  have q: "quiet w (ScanMenuL sid) st_f"
  proof -
    have "inv w (st\<lparr>now := t\<rparr>)" using inv by (simp add: inv_now)
    moreover have "timers (st\<lparr>now := t\<rparr>) h = Some (due, Next sid (p ! j) j li)"
      using tm by simp
    ultimately have "quiet w (ScanMenuL sid) (st\<lparr>now := t\<rparr>\<lparr>timers := (timers (st\<lparr>now := t\<rparr>))(h := None)\<rparr>)"
      by (rule quiet_fired)
    then show ?thesis by (simp add: st_f_def quiet_toggle)
  qed
  have jp: "j < length (scanned (buttonEmpty st_f) (buttons mn))"
    using j fields by (simp add: p_def)
  have adv: "loop w sid (nextButton mn j) (nextLoop mn j li) st_f =
     (if Suc j < length p then Some (step w sid (p ! Suc j) (Suc j) li st_f)
      else loop w sid 0 (li + 1) st_f)"
    using loop_advance[OF menu_f jp li] fields by (simp add: p_def)
  have pne: "p \<noteq> []" using j by auto
  have pne_f: "scanned (buttonEmpty st_f) (buttons mn) \<noteq> []"
    using pne fields by (simp add: p_def)
  have restart: "loop w sid 0 (li + 1) st_f =
     (if li + 1 = N_LOOPS then callCont w cb (unregister sid st_f)
      else Some (step w sid (p ! 0) 0 (li + 1) st_f))"
    using loop_restart[OF menu_f pne_f, of "li + 1"] li fields by (simp add: p_def)
  have next_visit: "\<exists>st_u st'. sweep w sid st = Some st' \<and> callCont w cb st_u = Some st' \<and>
        idle w st_u \<and> nextClosure st_u = nextClosure st \<and>
        buttonOn st_u = (buttonOn st)(p ! j := \<not> buttonOn st (p ! j)) \<and>
        trace st_u = trace st @ [Toggle (p ! j)] @ visit (p ! j') @
           concat (map visit (drop (Suc j') p)) @
           concat (replicate (N_LOOPS - 1 - li') (concat (map visit p))) @
           [RemoveListeners (ScanMenuL sid)]"
    if fired: "fire w (t, TimerFire h) st = Some (step w sid (p ! j') j' li' st_f)"
      and j': "j' < length p" and li': "li' < N_LOOPS"
      and less: "(N_LOOPS - 1 - li') * length p + (length p - 1 - j')
                 < (N_LOOPS - 1 - li) * length p + (length p - 1 - j)"
    for j' li'
  proof -
    define st1 where "st1 = step w sid (p ! j') j' li' st_f"
    have inv1: "inv w st1"
      unfolding st1_def using q menu_f li' by (intro inv_step) simp_all
    have tm1: "timers st1 (nextTimer st_f) =
        Some (now st_f + getWaitTime w (p ! j'), Next sid (p ! j') j' li')"
      by (simp add: st1_def step_fields)
    have f1: "s_menu (sessions st1 sid) = m" "s_cb (sessions st1 sid) = cb" "buttonEmpty st1 = em"
      using fields by (simp_all add: st1_def step_fields)
    from less.hyps[OF less inv1 tm1 f1 j']
    obtain st_u st' where r: "sweep w sid st1 = Some st'" "callCont w cb st_u = Some st'"
      "idle w st_u" "nextClosure st_u = nextClosure st1"
      "buttonOn st_u = (buttonOn st1)(p ! j' := \<not> buttonOn st1 (p ! j'))"
      "trace st_u = trace st1 @ Toggle (p ! j') # concat (map visit (drop (Suc j') p)) @
          concat (replicate (N_LOOPS - 1 - li') (concat (map visit p))) @
          [RemoveListeners (ScanMenuL sid)]"
      by blast
    have "sweep w sid st = sweep w sid st1"
      using sweep_fire[OF th tm, of w st1] fired by (simp add: t_def st1_def)
    moreover have "trace st1 = trace st @ [Toggle (p ! j), Toggle (p ! j'), Announce (p ! j')]"
      by (simp add: st1_def step_fields fields)
    moreover have "nextClosure st1 = nextClosure st"
      by (simp add: st1_def step_fields fields)
    moreover have "(buttonOn st1)(p ! j' := \<not> buttonOn st1 (p ! j')) =
        (buttonOn st)(p ! j := \<not> buttonOn st (p ! j))"
      unfolding st1_def step_fields toggled_twice by (simp only: fields)
    ultimately show ?thesis using r by - (rule exI[of _ st_u], rule exI[of _ st'], simp add: visit_def)
  qed
  consider (A) "Suc j < length p" | (B) "Suc j = length p" "Suc li < N_LOOPS"
    | (C) "Suc j = length p" "Suc li = N_LOOPS"
    using j li by linarith
  then show ?case
  proof cases
    case A
    have "fire w (t, TimerFire h) st = Some (step w sid (p ! Suc j) (Suc j) li st_f)"
      using fire_eq adv A by simp
    moreover have "(N_LOOPS - 1 - li) * length p + (length p - 1 - Suc j)
                 < (N_LOOPS - 1 - li) * length p + (length p - 1 - j)"
      using A by arith
    ultimately obtain st_u st' where r: "sweep w sid st = Some st'" "callCont w cb st_u = Some st'"
      "idle w st_u" "nextClosure st_u = nextClosure st"
      "buttonOn st_u = (buttonOn st)(p ! j := \<not> buttonOn st (p ! j))"
      "trace st_u = trace st @ [Toggle (p ! j)] @ visit (p ! Suc j) @
           concat (map visit (drop (Suc (Suc j)) p)) @
           concat (replicate (N_LOOPS - 1 - li) (concat (map visit p))) @
           [RemoveListeners (ScanMenuL sid)]"
      using next_visit[OF _ A li] by blast
    have "drop (Suc j) p = p ! Suc j # drop (Suc (Suc j)) p"
      using A by (simp add: Cons_nth_drop_Suc)
    with r show ?thesis by - (rule exI[of _ st_u], rule exI[of _ st'], simp)
  next
    case B
    have fired: "fire w (t, TimerFire h) st = Some (step w sid (p ! 0) 0 (Suc li) st_f)"
      using fire_eq adv restart B by simp
    have p0: "0 < length p" using pne by simp
    have less: "(N_LOOPS - 1 - Suc li) * length p + (length p - 1 - 0)
                 < (N_LOOPS - 1 - li) * length p + (length p - 1 - j)"
    proof -
      have "(N_LOOPS - 1 - li) * length p = (N_LOOPS - 1 - Suc li) * length p + length p"
        by (simp only: passes_Suc[OF B(2)] mult_Suc add.commute)
      with p0 show ?thesis by arith
    qed
    from next_visit[OF fired p0 B(2) less]
    obtain st_u st' where r: "sweep w sid st = Some st'" "callCont w cb st_u = Some st'"
      "idle w st_u" "nextClosure st_u = nextClosure st"
      "buttonOn st_u = (buttonOn st)(p ! j := \<not> buttonOn st (p ! j))"
      "trace st_u = trace st @ [Toggle (p ! j)] @ visit (p ! 0) @
           concat (map visit (drop (Suc 0) p)) @
           concat (replicate (N_LOOPS - 1 - Suc li) (concat (map visit p))) @
           [RemoveListeners (ScanMenuL sid)]"
      by auto
    have "drop (Suc j) p = []" using B by simp
    moreover have "concat (replicate (N_LOOPS - 1 - li) (concat (map visit p))) =
        visit (p ! 0) @ concat (map visit (drop (Suc 0) p)) @
        concat (replicate (N_LOOPS - 1 - Suc li) (concat (map visit p)))"
    proof -
      define X where "X = concat (map visit p)"
      define Y where "Y = visit (p ! 0) @ concat (map visit (drop (Suc 0) p))"
      have XY: "Y = X" using visits_first[OF pne] by (simp add: X_def Y_def)
      have "concat (replicate (N_LOOPS - 1 - li) X) = X @ concat (replicate (N_LOOPS - 1 - Suc li) X)"
        by (subst passes_Suc[OF B(2)]) simp
      also have "\<dots> = Y @ concat (replicate (N_LOOPS - 1 - Suc li) X)"
        by (simp only: XY)
      finally show ?thesis by (simp add: X_def Y_def)
    qed
    ultimately have "trace st_u = trace st @ Toggle (p ! j) # concat (map visit (drop (Suc j) p)) @
              concat (replicate (N_LOOPS - 1 - li) (concat (map visit p))) @
              [RemoveListeners (ScanMenuL sid)]"
      using r(6) by (simp only: append_Cons append_Nil append_assoc concat.simps list.map)
    with r(1-5) show ?thesis by blast
  next
    case C
    define st_u where "st_u = unregister sid st_f"
    have fired: "fire w (t, TimerFire h) st = callCont w cb st_u"
      using fire_eq adv restart C by (simp add: st_u_def)
    have idle: "idle w st_u"
      unfolding st_u_def unregister_def by (rule idle_unregister[OF q])
    from callCont_invoked[OF idle, of cb]
    obtain st' where st': "callCont w cb st_u = Some st'" "inv w st'"
      "frame (emit (Invoke cb) st_u) st'" by blast
    have hlt: "h < nextTimer st" by (rule inv_handles(1)[OF inv th])
    have slt: "sid < nextClosure st"
      using inv reg by (auto simp: inv_def inv_listeners_def)
    have "sessions st' sid = sessions st sid" "timers st' h = None"
      using st'(3) hlt slt fields
      by (simp_all add: frame_def st_u_def unregister_def unregisterListeners_def emit_def)
    then have "sweep w sid st' = Some st'"
      using th by (intro sweep_done) simp
    moreover have "sweep w sid st = sweep w sid st'"
      using sweep_fire[OF th tm, of w st'] fired st'(1) by (simp add: t_def)
    moreover have "trace st_u = trace st @ [Toggle (p ! j), RemoveListeners (ScanMenuL sid)]"
      using fields by (simp add: st_u_def unregister_def unregisterListeners_def emit_def)
    moreover have "nextClosure st_u = nextClosure st"
      using fields by (simp add: st_u_def unregister_def unregisterListeners_def emit_def)
    moreover have "buttonOn st_u = (buttonOn st)(p ! j := \<not> buttonOn st (p ! j))"
      using fields by (simp add: st_u_def unregister_def unregisterListeners_def emit_def)
    moreover have "drop (Suc j) p = []" "N_LOOPS - 1 - li = 0" using C by simp_all
    ultimately show ?thesis
      using st'(1) idle by - (rule exI[of _ st_u], rule exI[of _ st'], simp)
  qed
qed

lemma entered_fields:
  "s_cb (sessions (register (nextClosure st) (newSession m cb st)) (nextClosure st)) = cb"
  "timeout (sessions (register (nextClosure st) (newSession m cb st)) (nextClosure st)) = None"
  "buttonEmpty (register (nextClosure st) (newSession m cb st)) = buttonEmpty st"
  "trace (register (nextClosure st) (newSession m cb st)) =
     trace st @ [AddListeners (ScanMenuL (nextClosure st))]"
  "buttonOn (register (nextClosure st) (newSession m cb st)) = buttonOn st"
  "nextClosure (register (nextClosure st) (newSession m cb st)) = Suc (nextClosure st)"
  by (simp_all add: prims)

lemma unregister_fields:
  "sessions (unregister sid st) = sessions st" "timers (unregister sid st) = timers st"
  "nextClosure (unregister sid st) = nextClosure st" "nextTimer (unregister sid st) = nextTimer st"
  "trace (unregister sid st) = trace st @ [RemoveListeners (ScanMenuL sid)]"
  "buttonOn (unregister sid st) = buttonOn st"
  by (simp_all add: prims)

lemma passes_first:
  "concat (replicate N_LOOPS X) = X @ concat (replicate (N_LOOPS - 1) X)"
  by (simp add: N_LOOPS_def numeral_2_eq_2)

text \<open>
  A scan of a menu with a button, left alone: the buttons before the first empty one are
  visited in order, \<open>N_LOOPS\<close> times, the listeners are removed and the callback is called.
\<close>

lemma scan_sweep:
  assumes idle: "idle w st" and menu: "menus w m = Some mn" and ne: "buttons mn \<noteq> []"
  shows "\<exists>st1 st_u st'. scanMenu w m cb st = Some st1 \<and>
           sweep w (nextClosure st) st1 = Some st' \<and> callCont w cb st_u = Some st' \<and>
           idle w st_u \<and> nextClosure st_u = Suc (nextClosure st) \<and>
           buttonOn st_u = buttonOn st \<and>
           trace st_u = trace st @ AddListeners (ScanMenuL (nextClosure st)) #
              concat (replicate N_LOOPS
                 (concat (map visit (scanned (buttonEmpty st) (buttons mn))))) @
              [RemoveListeners (ScanMenuL (nextClosure st))]"
proof -
  define sid where "sid = nextClosure st"
  define st2 where "st2 = register sid (newSession m cb st)"
  define p where "p = scanned (buttonEmpty st) (buttons mn)"
  have f2: "s_menu (sessions st2 sid) = m" "s_cb (sessions st2 sid) = cb"
    "timeout (sessions st2 sid) = None" "buttonEmpty st2 = buttonEmpty st"
    "trace st2 = trace st @ [AddListeners (ScanMenuL sid)]" "nextClosure st2 = Suc sid"
    "buttonOn st2 = buttonOn st"
    by (simp_all add: st2_def sid_def entered_menu entered_fields)
  have menu2: "menus w (s_menu (sessions st2 sid)) = Some mn" using menu f2 by simp
  have eq: "scanMenu w m cb st = loop w sid 0 0 st2"
    using f2 by (simp add: scanMenu_def scanMenuK_def loop_def Let_def st2_def sid_def)
  have q: "quiet w (ScanMenuL sid) st2"
    unfolding st2_def sid_def by (rule quiet_entered[OF idle])
  show ?thesis
  proof (cases "p = []")
    case False
    then have pne2: "scanned (buttonEmpty st2) (buttons mn) \<noteq> []" using f2 by (simp add: p_def)
    define st1 where "st1 = step w sid (p ! 0) 0 0 st2"
    have scan: "scanMenu w m cb st = Some st1"
      using loop_restart[OF menu2 pne2, of 0] f2 eq
      by (simp add: st1_def p_def N_LOOPS_def)
    have inv1: "inv w st1"
      unfolding st1_def using q menu2 by (intro inv_step) (simp_all add: N_LOOPS_def)
    have tm1: "timers st1 (nextTimer st2) =
        Some (now st2 + getWaitTime w (p ! 0), Next sid (p ! 0) 0 0)"
      by (simp add: st1_def step_fields)
    have f1: "s_menu (sessions st1 sid) = m" "s_cb (sessions st1 sid) = cb"
      "buttonEmpty st1 = buttonEmpty st"
      using f2 by (simp_all add: st1_def step_fields)
    have p0: "0 < length (scanned (buttonEmpty st) (buttons mn))" using False by (simp add: p_def)
    from sweep_from[OF menu inv1 tm1[unfolded p_def] f1 p0]
    obtain st_u st' where r: "sweep w sid st1 = Some st'" "callCont w cb st_u = Some st'"
      "idle w st_u" "nextClosure st_u = nextClosure st1"
      "buttonOn st_u = (buttonOn st1)(p ! 0 := \<not> buttonOn st1 (p ! 0))"
      "trace st_u = trace st1 @ Toggle (p ! 0) # concat (map visit (drop (Suc 0) p)) @
          concat (replicate (N_LOOPS - 1 - 0) (concat (map visit p))) @
          [RemoveListeners (ScanMenuL sid)]"
      unfolding p_def by blast
    have t1: "trace st1 = trace st @ [AddListeners (ScanMenuL sid), Toggle (p ! 0), Announce (p ! 0)]"
      using f2 by (simp add: st1_def step_fields)
    have "trace st_u = trace st @ AddListeners (ScanMenuL sid) #
        (visit (p ! 0) @ concat (map visit (drop 1 p))) @
         concat (replicate (N_LOOPS - 1) (concat (map visit p))) @
         [RemoveListeners (ScanMenuL sid)]"
      using r(6) t1 by (simp add: visit_def)
    then have "trace st_u = trace st @ AddListeners (ScanMenuL sid) #
         concat (replicate N_LOOPS (concat (map visit p))) @
         [RemoveListeners (ScanMenuL sid)]"
      by (simp only: visits_first[OF False, symmetric] passes_first[of "concat (map visit p)"]
            append_assoc)
    moreover have "nextClosure st_u = Suc (nextClosure st)"
      using r(4) f2 by (simp add: st1_def step_fields sid_def)
    moreover have "buttonOn st_u = buttonOn st"
      using r(5) f2(7) unfolding st1_def step_fields toggled_twice by simp
    ultimately show ?thesis using scan r(1-3) unfolding sid_def p_def by blast
  next
    case True
    then have stop: "length (scanned (buttonEmpty st2) (buttons mn)) < length (buttons mn)"
      using ne f2 by (simp add: p_def)
    have em: "getButton (buttons mn) 0 = Some (buttons mn ! 0)" "buttonEmpty st2 (buttons mn ! 0)"
      using scanned_stop[OF stop] True f2 by (simp_all add: p_def)
    define st_u where "st_u = unregister sid st2"
    have "loop w sid 0 0 st2 = loop w sid 0 1 st2"
      using loop_skip[OF menu2 _ em, of 0] by (simp add: N_LOOPS_def)
    also have "\<dots> = loop w sid 0 2 st2"
      using loop_skip[OF menu2 _ em, of 1] by (simp add: N_LOOPS_def numeral_2_eq_2)
    also have "\<dots> = callCont w cb st_u"
      using loop_over[OF menu2, of 0] f2 by (simp add: N_LOOPS_def st_u_def numeral_2_eq_2)
    finally have scan0: "scanMenu w m cb st = callCont w cb st_u" using eq by simp
    have idle_u: "idle w st_u"
      unfolding st_u_def unregister_def by (rule idle_unregister[OF q])
    from callCont_invoked[OF idle_u, of cb]
    obtain st' where st': "callCont w cb st_u = Some st'" "inv w st'"
      "frame (emit (Invoke cb) st_u) st'" by blast
    have "sessions st' sid = sessions st2 sid"
      using st'(3) f2 by (simp add: frame_def st_u_def unregister_fields emit_def)
    then have "sweep w sid st' = Some st'"
      using f2 by (intro sweep_done) simp
    moreover have "trace st_u = trace st @ AddListeners (ScanMenuL sid) #
         concat (replicate N_LOOPS (concat (map visit p))) @
         [RemoveListeners (ScanMenuL sid)]"
      using f2 True by (simp add: st_u_def unregister_fields)
    moreover have "scanMenu w m cb st = Some st'" using scan0 st'(1) by simp
    moreover have "nextClosure st_u = Suc (nextClosure st)"
      using f2 by (simp add: st_u_def unregister_fields sid_def)
    moreover have "buttonOn st_u = buttonOn st"
      using f2 by (simp add: st_u_def unregister_fields)
    ultimately show ?thesis using st'(1) idle_u unfolding sid_def p_def by blast
  qed
qed

text \<open>What the callback adds to the trace starts with its call and presses no button.\<close>

lemma callCont_trace:
  assumes "idle w st" "callCont w c st = Some st'"
  shows "\<exists>xs. trace st' = trace st @ Invoke c # xs \<and> presses xs = []" "inv w st'"
proof -
  from callCont_invoked[OF assms(1), of c] assms(2)
  have inv: "inv w st'" and f: "frame (emit (Invoke c) st) st'" by auto
  from frame_trace[OF f] show "\<exists>xs. trace st' = trace st @ Invoke c # xs \<and> presses xs = []"
    by (simp add: emit_def)
  from inv show "inv w st'" .
qed

text \<open>The same, with what the callback adds and the closure that is left behind.\<close>

lemma scan_left_alone:
  assumes idle: "idle w st" and menu: "menus w m = Some mn" and ne: "buttons mn \<noteq> []"
  shows "\<exists>st1 st_u st' xs. scanMenu w m cb st = Some st1 \<and>
           sweep w (nextClosure st) st1 = Some st' \<and> callCont w cb st_u = Some st' \<and>
           trace st_u = trace st @ AddListeners (ScanMenuL (nextClosure st)) #
              concat (replicate N_LOOPS
                 (concat (map visit (scanned (buttonEmpty st) (buttons mn))))) @
              [RemoveListeners (ScanMenuL (nextClosure st))] \<and>
           trace st' = trace st_u @ Invoke cb # xs \<and> presses xs = [] \<and> inv w st' \<and>
           ScanMenuL (nextClosure st) \<notin> set (beginListeners st') \<and>
           buttonOn st_u = buttonOn st"
proof -
  from scan_sweep[OF idle menu ne, of cb]
  obtain st1 st_u st' where r: "scanMenu w m cb st = Some st1"
    "sweep w (nextClosure st) st1 = Some st'" "callCont w cb st_u = Some st'"
    "idle w st_u" "nextClosure st_u = Suc (nextClosure st)" "buttonOn st_u = buttonOn st"
    "trace st_u = trace st @ AddListeners (ScanMenuL (nextClosure st)) #
              concat (replicate N_LOOPS
                 (concat (map visit (scanned (buttonEmpty st) (buttons mn))))) @
              [RemoveListeners (ScanMenuL (nextClosure st))]"
    by blast
  from callCont_trace[OF r(4) r(3)]
  obtain xs where xs: "trace st' = trace st_u @ Invoke cb # xs" "presses xs = []"
    and inv: "inv w st'" by blast
  from callCont_invoked[OF r(4), of cb] r(3)
  have f: "frame (emit (Invoke cb) st_u) st'" by auto
  have "ScanMenuL (nextClosure st) \<notin> set (beginListeners st')"
  proof
    assume "ScanMenuL (nextClosure st) \<in> set (beginListeners st')"
    with f have "ScanMenuL (nextClosure st) \<in> set (beginListeners (emit (Invoke cb) st_u)) \<or>
         nextClosure (emit (Invoke cb) st_u) \<le> closureId (ScanMenuL (nextClosure st))"
      unfolding frame_def by blast
    with r(4,5) show False by (simp add: idle_def emit_def)
  qed
  with r(1-3,6,7) xs inv show ?thesis by blast
qed

lemma scanned_all:
  assumes "\<forall>i j. i < j \<and> j < length bs \<and> em (bs ! i) \<longrightarrow> em (bs ! j)"
  shows "scanned em bs = filter (\<lambda>b. \<not> em b) bs"
  using assms
proof (induction bs)
  case Nil
  show ?case by (simp add: scanned_def)
next
  case (Cons b bs)
  have tl: "\<forall>i j. i < j \<and> j < length bs \<and> em (bs ! i) \<longrightarrow> em (bs ! j)"
  proof (intro allI impI)
    fix i j assume "i < j \<and> j < length bs \<and> em (bs ! i)"
    then have "Suc i < Suc j \<and> Suc j < length (b # bs) \<and> em ((b # bs) ! Suc i)" by simp
    with Cons.prems have "em ((b # bs) ! Suc j)" by blast
    then show "em (bs ! j)" by simp
  qed
  show ?case
  proof (cases "em b")
    case False
    with Cons.IH[OF tl] show ?thesis by (simp add: scanned_def)
  next
    case True
    have "em x" if "x \<in> set bs" for x
    proof -
      from that obtain j where j: "j < length bs" "bs ! j = x" by (auto simp: in_set_conv_nth)
      with True have "0 < Suc j \<and> Suc j < length (b # bs) \<and> em ((b # bs) ! 0)" by simp
      with Cons.prems have "em ((b # bs) ! Suc j)" by blast
      with j show ?thesis by simp
    qed
    then have "filter (\<lambda>b. \<not> em b) bs = []" by (simp add: filter_empty_conv)
    with True show ?thesis by (simp add: scanned_def)
  qed
qed

lemma scanned_none:
  assumes "\<forall>b \<in> set bs. em b"
  shows "scanned em bs = []"
  using assms by (cases bs) (simp_all add: scanned_def)

lemma nextLoop_wraps:
  "nextLoop mn j li = (if Suc j = length (buttons mn) then li + 1 else li)"
  by (auto simp: nextLoop_def isLastButton_def)

subsection \<open>The highlights during the scan\<close>

lemma sweepN_done:
  assumes "timeout (sessions st sid) = None \<or>
           (\<exists>h. timeout (sessions st sid) = Some h \<and> timers st h = None)"
  shows "sweepN w sid n st = Some st"
  using assms by (cases n) auto

lemma no_step_pending:
  assumes "inv w st" "ScanMenuL sid \<notin> set (beginListeners st)"
  shows "timers st i \<noteq> Some (d, Next sid b bi li)"
proof
  assume "timers st i = Some (d, Next sid b bi li)"
  from inv_next_timer(1)[OF assms(1) this] assms(2) show False by simp
qed

text \<open>
  One step timer runs: the scan goes to a button of the pass, or the closure is left
  without listeners.
\<close>

lemma timer_visit:
  fixes w m mn em cb sid
  defines "p \<equiv> scanned em (buttons mn)"
  assumes menu: "menus w m = Some mn"
    and inv: "inv w st" and tm: "timers st h = Some (due, Next sid (p ! j) j li)"
    and sm: "s_menu (sessions st sid) = m" and sc: "s_cb (sessions st sid) = cb"
    and em: "buttonEmpty st = em" and j: "j < length p"
  shows "\<exists>st1. fire w (max due (now st), TimerFire h) st = Some st1 \<and> inv w st1 \<and>
     ((\<exists>j' li' st_f. j' < length p \<and> st1 = step w sid (p ! j') j' li' st_f \<and>
          buttonOn st_f = (buttonOn st)(p ! j := \<not> buttonOn st (p ! j)) \<and>
          s_menu (sessions st_f sid) = m \<and> s_cb (sessions st_f sid) = cb \<and>
          buttonEmpty st_f = em) \<or>
      (ScanMenuL sid \<notin> set (beginListeners st1) \<and> timers st1 h = None \<and>
       sessions st1 sid = sessions st sid))"
proof -
  from inv_next_timer[OF inv tm]
  have reg: "beginListeners st = [ScanMenuL sid]" and th: "timeout (sessions st sid) = Some h"
    and li: "li < N_LOOPS" by simp_all
  define t where "t = max due (now st)"
  define st_f where "st_f = toggle (p ! j) (st\<lparr>now := t, timers := (timers st)(h := None)\<rparr>)"
  have fields: "s_menu (sessions st_f sid) = m" "s_cb (sessions st_f sid) = cb"
    "buttonEmpty st_f = em" "sessions st_f = sessions st" "timers st_f h = None"
    "nextClosure st_f = nextClosure st" "nextTimer st_f = nextTimer st"
    "buttonOn st_f = (buttonOn st)(p ! j := \<not> buttonOn st (p ! j))"
    using sm sc em by (simp_all add: st_f_def toggle_def emit_def)
  have menu_f: "menus w (s_menu (sessions st_f sid)) = Some mn"
    using menu fields by simp
  have fire_eq: "fire w (t, TimerFire h) st = loop w sid (nextButton mn j) (nextLoop mn j li) st_f"
    using tm menu_f by (simp add: t_def next_step_def Let_def st_f_def)
  have q: "quiet w (ScanMenuL sid) st_f"
  proof -
    have "inv w (st\<lparr>now := t\<rparr>)" using inv by (simp add: inv_now)
    moreover have "timers (st\<lparr>now := t\<rparr>) h = Some (due, Next sid (p ! j) j li)"
      using tm by simp
    ultimately have "quiet w (ScanMenuL sid) (st\<lparr>now := t\<rparr>\<lparr>timers := (timers (st\<lparr>now := t\<rparr>))(h := None)\<rparr>)"
      by (rule quiet_fired)
    then show ?thesis by (simp add: st_f_def quiet_toggle)
  qed
  have jp: "j < length (scanned (buttonEmpty st_f) (buttons mn))"
    using j fields by (simp add: p_def)
  have adv: "loop w sid (nextButton mn j) (nextLoop mn j li) st_f =
     (if Suc j < length p then Some (step w sid (p ! Suc j) (Suc j) li st_f)
      else loop w sid 0 (li + 1) st_f)"
    using loop_advance[OF menu_f jp li] fields by (simp add: p_def)
  have pne: "p \<noteq> []" using j by auto
  have pne_f: "scanned (buttonEmpty st_f) (buttons mn) \<noteq> []"
    using pne fields by (simp add: p_def)
  have restart: "loop w sid 0 (li + 1) st_f =
     (if li + 1 = N_LOOPS then callCont w cb (unregister sid st_f)
      else Some (step w sid (p ! 0) 0 (li + 1) st_f))"
    using loop_restart[OF menu_f pne_f, of "li + 1"] li fields by (simp add: p_def)
  have visit: ?thesis
    if fired: "fire w (t, TimerFire h) st = Some (step w sid (p ! j') j' li' st_f)"
      and j': "j' < length p" and li': "li' < N_LOOPS" for j' li'
  proof -
    have "inv w (step w sid (p ! j') j' li' st_f)"
      using q menu_f li' by (intro inv_step) simp_all
    with fired j' fields show ?thesis unfolding t_def by blast
  qed
  consider (A) "Suc j < length p" | (B) "Suc j = length p" "Suc li < N_LOOPS"
    | (C) "Suc j = length p" "Suc li = N_LOOPS"
    using j li by linarith
  then show ?thesis
  proof cases
    case A
    have "fire w (t, TimerFire h) st = Some (step w sid (p ! Suc j) (Suc j) li st_f)"
      using fire_eq adv A by simp
    from visit[OF this A li] show ?thesis .
  next
    case B
    have "fire w (t, TimerFire h) st = Some (step w sid (p ! 0) 0 (Suc li) st_f)"
      using fire_eq adv restart B by simp
    moreover have "0 < length p" using pne by simp
    ultimately show ?thesis using visit B(2) by blast
  next
    case C
    define st_u where "st_u = unregister sid st_f"
    have fired: "fire w (t, TimerFire h) st = callCont w cb st_u"
      using fire_eq adv restart C by (simp add: st_u_def)
    have idle: "idle w st_u"
      unfolding st_u_def unregister_def by (rule idle_unregister[OF q])
    from callCont_invoked[OF idle, of cb]
    obtain st' where st': "callCont w cb st_u = Some st'" "inv w st'"
      "frame (emit (Invoke cb) st_u) st'" by blast
    have hlt: "h < nextTimer st" by (rule inv_handles(1)[OF inv th])
    have slt: "sid < nextClosure st"
      using inv reg by (auto simp: inv_def inv_listeners_def)
    have kept: "sessions st' sid = sessions st sid" "timers st' h = None"
      using st'(3) hlt slt fields
      by (simp_all add: frame_def st_u_def unregister_def unregisterListeners_def emit_def)
    have "ScanMenuL sid \<notin> set (beginListeners st')"
    proof
      assume "ScanMenuL sid \<in> set (beginListeners st')"
      with st'(3) have "ScanMenuL sid \<in> set (beginListeners (emit (Invoke cb) st_u)) \<or>
           nextClosure (emit (Invoke cb) st_u) \<le> closureId (ScanMenuL sid)"
        unfolding frame_def by blast
      with idle slt fields show False
        by (simp add: idle_def emit_def st_u_def unregister_fields)
    qed
    with fired st'(1,2) kept show ?thesis unfolding t_def by simp
  qed
qed

text \<open>
  While a button waits for its step timer, its highlight is the opposite of what it was
  when the scan was called, and no other highlight has changed.
\<close>

lemma sweepN_lights:
  fixes w m mn em cb sid
  defines "p \<equiv> scanned em (buttons mn)"
  assumes menu: "menus w m = Some mn"
  shows "\<lbrakk>inv w st; timers st h = Some (due, Next sid (p ! j) j li);
          s_menu (sessions st sid) = m; s_cb (sessions st sid) = cb; buttonEmpty st = em;
          j < length p; buttonOn st = B(p ! j := \<not> B (p ! j))\<rbrakk>
     \<Longrightarrow> \<exists>st_n. sweepN w sid n st = Some st_n \<and>
           (\<forall>i d b bi li. timers st_n i = Some (d, Next sid b bi li) \<longrightarrow>
                buttonOn st_n = B(b := \<not> B b))"
proof (induction n arbitrary: st h due j li)
  case 0
  have "buttonOn st = B(b := \<not> B b)" if "timers st i = Some (d, Next sid b bi li')"
    for i d b bi li'
  proof -
    from inv_next_timer(2)[OF "0.prems"(1) that] inv_next_timer(2)[OF "0.prems"(1,2)]
    have "i = h" by simp
    with that "0.prems"(2) have b: "b = p ! j" by auto
    show ?thesis unfolding b by (rule "0.prems"(7))
  qed
  then show ?case unfolding sweepN.simps by blast
next
  case (Suc n)
  note inv = Suc.prems(1) and tm = Suc.prems(2)
  from inv_next_timer(2)[OF inv tm] have th: "timeout (sessions st sid) = Some h" .
  from timer_visit[OF menu inv tm[unfolded p_def] Suc.prems(3,4,5) Suc.prems(6)[unfolded p_def]]
  obtain st1 where fired: "fire w (max due (now st), TimerFire h) st = Some st1"
    and inv1: "inv w st1"
    and alt: "(\<exists>j' li' st_f. j' < length p \<and> st1 = step w sid (p ! j') j' li' st_f \<and>
          buttonOn st_f = (buttonOn st)(p ! j := \<not> buttonOn st (p ! j)) \<and>
          s_menu (sessions st_f sid) = m \<and> s_cb (sessions st_f sid) = cb \<and>
          buttonEmpty st_f = em) \<or>
      (ScanMenuL sid \<notin> set (beginListeners st1) \<and> timers st1 h = None \<and>
       sessions st1 sid = sessions st sid)"
    unfolding p_def by blast
  have eq: "sweepN w sid (Suc n) st = sweepN w sid n st1"
    using th tm fired by simp
  from alt show ?case
  proof (elim disjE exE conjE)
    fix j' li' st_f
    assume j': "j' < length p" and st1: "st1 = step w sid (p ! j') j' li' st_f"
      and on: "buttonOn st_f = (buttonOn st)(p ! j := \<not> buttonOn st (p ! j))"
      and f: "s_menu (sessions st_f sid) = m" "s_cb (sessions st_f sid) = cb"
        "buttonEmpty st_f = em"
    have "buttonOn st_f = B"
      unfolding on Suc.prems(7) by (rule toggled_twice)
    then have on1: "buttonOn st1 = B(p ! j' := \<not> B (p ! j'))"
      by (simp add: st1 step_fields)
    have tm1: "timers st1 (nextTimer st_f) =
        Some (now st_f + getWaitTime w (p ! j'), Next sid (p ! j') j' li')"
      by (simp add: st1 step_fields)
    have f1: "s_menu (sessions st1 sid) = m" "s_cb (sessions st1 sid) = cb" "buttonEmpty st1 = em"
      using f by (simp_all add: st1 step_fields)
    from Suc.IH[OF inv1 tm1 f1 j' on1] show ?thesis unfolding eq .
  next
    assume dead: "ScanMenuL sid \<notin> set (beginListeners st1)" "timers st1 h = None"
      "sessions st1 sid = sessions st sid"
    have "sweepN w sid n st1 = Some st1"
      using dead th by (intro sweepN_done) simp
    with no_step_pending[OF inv1 dead(1)] show ?thesis unfolding eq by blast
  qed
qed

lemma scan_lights:
  assumes idle: "idle w st" and menu: "menus w m = Some mn" and ne: "buttons mn \<noteq> []"
  shows "\<exists>st1. scanMenu w m cb st = Some st1 \<and>
           (\<forall>n. \<exists>st_n. sweepN w (nextClosure st) n st1 = Some st_n \<and>
              (\<forall>i d b bi li. timers st_n i = Some (d, Next (nextClosure st) b bi li) \<longrightarrow>
                   buttonOn st_n = (buttonOn st)(b := \<not> buttonOn st b)))"
proof -
  define sid where "sid = nextClosure st"
  define st2 where "st2 = register sid (newSession m cb st)"
  define p where "p = scanned (buttonEmpty st) (buttons mn)"
  have f2: "s_menu (sessions st2 sid) = m" "s_cb (sessions st2 sid) = cb"
    "timeout (sessions st2 sid) = None" "buttonEmpty st2 = buttonEmpty st"
    "buttonOn st2 = buttonOn st"
    by (simp_all add: st2_def sid_def entered_menu entered_fields)
  have menu2: "menus w (s_menu (sessions st2 sid)) = Some mn" using menu f2 by simp
  have eq: "scanMenu w m cb st = loop w sid 0 0 st2"
    using f2 by (simp add: scanMenu_def scanMenuK_def loop_def Let_def st2_def sid_def)
  have q: "quiet w (ScanMenuL sid) st2"
    unfolding st2_def sid_def by (rule quiet_entered[OF idle])
  show ?thesis
  proof (cases "p = []")
    case False
    then have pne2: "scanned (buttonEmpty st2) (buttons mn) \<noteq> []" using f2 by (simp add: p_def)
    define st1 where "st1 = step w sid (p ! 0) 0 0 st2"
    have scan: "scanMenu w m cb st = Some st1"
      using loop_restart[OF menu2 pne2, of 0] f2 eq
      by (simp add: st1_def p_def N_LOOPS_def)
    have inv1: "inv w st1"
      unfolding st1_def using q menu2 by (intro inv_step) (simp_all add: N_LOOPS_def)
    have tm1: "timers st1 (nextTimer st2) =
        Some (now st2 + getWaitTime w (p ! 0), Next sid (p ! 0) 0 0)"
      by (simp add: st1_def step_fields)
    have f1: "s_menu (sessions st1 sid) = m" "s_cb (sessions st1 sid) = cb"
      "buttonEmpty st1 = buttonEmpty st"
      using f2 by (simp_all add: st1_def step_fields)
    have on1: "buttonOn st1 = (buttonOn st)(p ! 0 := \<not> buttonOn st (p ! 0))"
      using f2 by (simp add: st1_def step_fields)
    have p0: "0 < length (scanned (buttonEmpty st) (buttons mn))" using False by (simp add: p_def)
    have "\<exists>st_n. sweepN w sid n st1 = Some st_n \<and>
              (\<forall>i d b bi li. timers st_n i = Some (d, Next sid b bi li) \<longrightarrow>
                   buttonOn st_n = (buttonOn st)(b := \<not> buttonOn st b))" for n
      by (rule sweepN_lights[OF menu inv1 tm1[unfolded p_def] f1 p0 on1[unfolded p_def]])
    with scan show ?thesis unfolding sid_def by blast
  next
    case True
    have stop: "length (scanned (buttonEmpty st2) (buttons mn)) < length (buttons mn)"
      using True ne f2 by (simp add: p_def)
    have em: "getButton (buttons mn) 0 = Some (buttons mn ! 0)" "buttonEmpty st2 (buttons mn ! 0)"
      using scanned_stop[OF stop] True f2 by (simp_all add: p_def)
    have "loop w sid 0 0 st2 = loop w sid 0 1 st2"
      using loop_skip[OF menu2 _ em, of 0] by (simp add: N_LOOPS_def)
    also have "\<dots> = loop w sid 0 2 st2"
      using loop_skip[OF menu2 _ em, of 1] by (simp add: N_LOOPS_def numeral_2_eq_2)
    also have "\<dots> = callCont w cb (unregister sid st2)"
      using loop_over[OF menu2, of 0] f2 by (simp add: N_LOOPS_def numeral_2_eq_2)
    finally have scan0: "scanMenu w m cb st = callCont w cb (unregister sid st2)"
      using eq by simp
    have idle_u: "idle w (unregister sid st2)"
      unfolding unregister_def by (rule idle_unregister[OF q])
    from callCont_invoked[OF idle_u, of cb]
    obtain st1 where s1: "callCont w cb (unregister sid st2) = Some st1" "inv w st1"
      "frame (emit (Invoke cb) (unregister sid st2)) st1" by blast
    have nc: "nextClosure st2 = Suc sid" by (simp add: st2_def sid_def entered_fields)
    have notin: "ScanMenuL sid \<notin> set (beginListeners st1)"
    proof
      assume "ScanMenuL sid \<in> set (beginListeners st1)"
      with s1(3) have "ScanMenuL sid \<in> set (beginListeners (emit (Invoke cb) (unregister sid st2))) \<or>
           nextClosure (emit (Invoke cb) (unregister sid st2)) \<le> closureId (ScanMenuL sid)"
        unfolding frame_def by blast
      with idle_u nc show False
        by (simp add: idle_def emit_def unregister_fields)
    qed
    have "sessions st1 sid = sessions st2 sid"
      using s1(3) nc by (simp add: frame_def unregister_fields emit_def)
    then have "sweepN w sid n st1 = Some st1" for n
      using f2 by (intro sweepN_done) simp
    moreover have "scanMenu w m cb st = Some st1" using scan0 s1(1) by simp
    ultimately show ?thesis using no_step_pending[OF s1(2) notin] unfolding sid_def by blast
  qed
qed

subsection \<open>Runs with clicks on the start button\<close>







section \<open>The claims\<close>




lemma demoStart_inv: "inv demoWorld demoStart"
proof -
  from scanMenuK_returns[OF callCont_returns[of demoWorld Listen] idle_initial[of demoWorld "\<lambda>b. False"],
      of "''main''" Listen]
  show ?thesis by (auto simp: demoStart_def scanMenu_def)
qed

lemma demoGazing_inv: "inv demoWorld demoGazing"
  using fire_inv[OF demoStart_inv, of 100 GestureBegin] by (auto simp: demoGazing_def)

text \<open>
  C9. A gesture-end that reaches a registered session in which no gesture-begin has been
  recorded (\<open>startTime\<close> is undefined) finds \<open>elapsed = NaN\<close>, for which
  \<open>elapsed >= SHORT_GAZE_TIME\<close> is false, and leaves the whole state as it is, but for the
  clock: no button is pressed, \<open>cb\<close> is not called, the listeners stay registered and no
  timer is cleared.
\<close>

theorem gazeEnd_without_gazeBegin_is_ignored:
  assumes "inv w st" and "endListeners st = [ScanMenuL sid]"
    and "startTime (sessions st sid) = None"
  shows "elapsedSince t (startTime (sessions st sid)) = None \<and>
         \<not> num_ge (elapsedSince t (startTime (sessions st sid))) SHORT_GAZE_TIME \<and>
         fire w (t, GestureEnd) st = Some (st\<lparr>now := t\<rparr>)"
proof -
  from assms(1,3) have "longGazeTimeout (sessions st sid) = None"
    by (simp add: inv_def inv_sessions_def)
  with assms show ?thesis
    by (simp add: gazeEnd_def Let_def clearTimeout_def elapsedSince_def num_ge_def)
qed

theorem gazeEnd_without_gazeBegin_is_ignored_witness:
  "inv demoWorld demoStart \<and> endListeners demoStart = [ScanMenuL 0] \<and>
   startTime (sessions demoStart 0) = None \<and>
   fire demoWorld (500, GestureEnd) demoStart = Some (demoStart\<lparr>now := 500\<rparr>)"
proof -
  have h2: "endListeners demoStart = [ScanMenuL 0]" by code_simp
  have h3: "startTime (sessions demoStart 0) = None" by code_simp
  show ?thesis
    using gazeEnd_without_gazeBegin_is_ignored[OF demoStart_inv h2 h3, of 500]
      demoStart_inv h2 h3 by simp
qed

text \<open>
  C7. A gesture-end that reaches a registered session less than \<open>SHORT_GAZE_TIME\<close> after
  the recorded gesture-begin only clears the long-gaze timer: nothing is added to the
  trace (no button is pressed, \<open>cb\<close> is not called), the variables of all sessions
  (\<open>currentButton\<close> among them), the registered listeners, the pending
  \<open>buttonFinished\<close> listeners and the highlights stay as they are, and every pending step
  timer stays pending.
\<close>

theorem short_gesture_is_ignored:
  assumes "inv w st" and "endListeners st = [ScanMenuL sid]"
    and "startTime (sessions st sid) = Some t0"
    and "int t - int t0 < int SHORT_GAZE_TIME"
  shows "\<exists>st'. fire w (t, GestureEnd) st = Some st' \<and>
           trace st' = trace st \<and> sessions st' = sessions st \<and>
           beginListeners st' = beginListeners st \<and> endListeners st' = endListeners st \<and>
           clickListeners st' = clickListeners st \<and>
           finishedListeners st' = finishedListeners st \<and> buttonOn st' = buttonOn st \<and>
           (\<forall>i d s b bi li. timers st i = Some (d, Next s b bi li) \<longrightarrow>
               timers st' i = Some (d, Next s b bi li))"
proof -
  define h where "h = longGazeTimeout (sessions st sid)"
  have eq: "fire w (t, GestureEnd) st = Some (clearTimeout h (st\<lparr>now := t\<rparr>))"
    using assms(2,3,4)
    by (simp add: gazeEnd_def Let_def elapsedSince_def num_ge_def h_def)
  have kept: "timers (clearTimeout h (st\<lparr>now := t\<rparr>)) i = Some (d, Next s b bi li)"
    if t: "timers st i = Some (d, Next s b bi li)" for i d s b bi li
  proof (cases h)
    case None
    then show ?thesis using t by (simp add: clearTimeout_def)
  next
    case (Some j)
    have "j \<noteq> i"
    proof
      assume "j = i"
      with Some t have "Next s b bi li = SignalLongGaze"
        using inv_longGaze_timer[OF assms(1), of sid i d "Next s b bi li"] by (simp add: h_def)
      then show False by simp
    qed
    then show ?thesis using t Some by (simp add: clearTimeout_def)
  qed
  show ?thesis
    unfolding eq using kept by (cases h) (simp_all add: clearTimeout_def)
qed

theorem short_gesture_is_ignored_witness:
  "inv demoWorld demoGazing \<and> endListeners demoGazing = [ScanMenuL 0] \<and>
   startTime (sessions demoGazing 0) = Some 100 \<and>
   (\<exists>st'. fire demoWorld (250, GestureEnd) demoGazing = Some st' \<and>
      trace st' = trace demoGazing \<and> sessions st' = sessions demoGazing \<and>
      beginListeners st' = beginListeners demoGazing \<and>
      timers st' 0 = timers demoGazing 0)"
proof -
  have h2: "endListeners demoGazing = [ScanMenuL 0]" by code_simp
  have h3: "startTime (sessions demoGazing 0) = Some 100" by code_simp
  have h4: "int 250 - int 100 < int SHORT_GAZE_TIME" by (simp add: SHORT_GAZE_TIME_def)
  have t0: "timers demoGazing 0 = Some (1000, Next 0 0 0 0)" by code_simp
  from short_gesture_is_ignored[OF demoGazing_inv h2 h3 h4] t0
  show ?thesis using demoGazing_inv h2 h3 by auto
qed

text \<open>
  C8, amended. A click on the stop button reaches a state that satisfies the invariant,
  in which a session of \<open>scanMenu\<close> is registered and has a current button. The handler
  unregisters the three listeners, toggles the highlight of the current button (the
  highlight is switched off if it was on, and on if it was off), clears the step timer,
  sets the detector to idle and announces \<open>stopping.\<close> (the message of the language
  table), in this order. It does not call \<open>cb\<close>, and no event calls it later: no
  listener is registered and no step timer is pending, and whatever events follow
  (gestures, clicks on the stop button, timers, buttons that finish, button values), no
  callback is called and no button is pressed.
\<close>

theorem stop_ends_the_scan_without_callback:
  assumes "inv w st" and "clickListeners st = [ScanMenuL sid]"
    and "currentButton (sessions st sid) = Some c"
  shows "\<exists>st'. fire w (t, StopClick) st = Some st' \<and>
           trace st' = trace st @ [RemoveListeners (ScanMenuL sid), Toggle c, IdleMode,
                                   SpeakSync ''stopping.''] \<and>
           beginListeners st' = [] \<and> endListeners st' = [] \<and> clickListeners st' = [] \<and>
           buttonOn st' c = (\<not> buttonOn st c) \<and>
           (\<forall>i. timeout (sessions st sid) = Some i \<longrightarrow> timers st' i = None) \<and>
           noNext st' \<and>
           (\<forall>es. \<exists>st''. run w es st' = Some st'' \<and>
                  invokes (trace st'') = invokes (trace st) \<and>
                  presses (trace st'') = presses (trace st))"
proof -
  have reg: "beginListeners st = [ScanMenuL sid]" "endListeners st = [ScanMenuL sid]"
    "finishedListeners st = []"
    using inv_registered[OF assms(1)] assms(2) by auto
  define st' where "st' = pressStop sid (st\<lparr>now := t\<rparr>)"
  have eq: "fire w (t, StopClick) st = Some st'"
    using assms(2) by (simp add: st'_def)
  have q: "quiet w (ScanMenuL sid) (clearTimeout (timeout (sessions st sid)) (st\<lparr>now := t\<rparr>))"
    using quiet_cleared[of w "st\<lparr>now := t\<rparr>" sid] assms(1) reg by (simp add: inv_now)
  have nn: "noNext st'"
    using q assms(3)
    by (cases "timeout (sessions st sid)")
       (simp_all add: st'_def pressStop_def Let_def quiet_def noNext_def prims)
  have fields: "trace st' = trace st @ [RemoveListeners (ScanMenuL sid), Toggle c, IdleMode,
                                   SpeakSync ''stopping.'']"
    "beginListeners st' = []" "endListeners st' = []" "clickListeners st' = []"
    "finishedListeners st' = []"
    "buttonOn st' c = (\<not> buttonOn st c)"
    "\<forall>i. timeout (sessions st sid) = Some i \<longrightarrow> timers st' i = None"
    using assms(2,3) reg
    by (cases "timeout (sessions st sid)"; simp add: st'_def pressStop_def Let_def prims)+
  have h: "halted st'" using fields nn by (simp add: halted_def)
  have later: "\<exists>st''. run w es st' = Some st'' \<and>
                  invokes (trace st'') = invokes (trace st) \<and>
                  presses (trace st'') = presses (trace st)" for es
  proof -
    from halted_run[OF h, of w es] obtain st'' where
      "run w es st' = Some st''" "invokes (trace st'') = invokes (trace st')"
      "presses (trace st'') = presses (trace st')" by blast
    then show ?thesis using fields(1) by (simp add: invokes_append presses_append)
  qed
  show ?thesis using eq fields nn later by blast
qed

theorem stop_ends_the_scan_without_callback_witness:
  "inv demoWorld demoStart \<and> clickListeners demoStart = [ScanMenuL 0] \<and>
   currentButton (sessions demoStart 0) = Some 0 \<and>
   (\<exists>st'. fire demoWorld (300, StopClick) demoStart = Some st' \<and>
      trace st' = trace demoStart @ [RemoveListeners (ScanMenuL 0), Toggle 0, IdleMode,
                                     SpeakSync ''stopping.''] \<and>
      beginListeners st' = [] \<and> timers st' 0 = None)"
proof -
  have h2: "clickListeners demoStart = [ScanMenuL 0]" by code_simp
  have h3: "currentButton (sessions demoStart 0) = Some 0" by code_simp
  have h4: "timeout (sessions demoStart 0) = Some 0" by code_simp
  from stop_ends_the_scan_without_callback[OF demoStart_inv h2 h3, of 300] h4
  show ?thesis using demoStart_inv h2 h3 by auto
qed

text \<open>
  C8 as stated fails in two ways. In \<open>stuckScan\<close> the current button is not highlighted:
  a long gaze that began and ended on it left the menu without switching its highlight
  off, so the next scan switched it off when it announced the button; the stop click then
  switches the highlight on. And in the session left registered by a scan of a menu
  without buttons there is no current button: \<open>currentButton.toggle()\<close> throws after the
  listeners are removed, and neither the idle mode nor the announcement follows.
\<close>

theorem stop_on_stuck_highlight_or_no_button:
  "\<not> buttonOn stuckScan 0 \<and>
   map_option trace (fire slowWorld (4500, StopClick) stuckScan)
     = Some [AddListeners (ScanMenuL 0), Toggle 0, Announce 0, Beep 300 250,
             RemoveListeners (ScanMenuL 0), Invoke Listen, SpeakSync ''listening.'',
             ListenMode, AddListeners (ListenL 1), Beep 300 250,
             RemoveListeners (ListenL 1), ScanMode, AddListeners (ScanMenuL 2),
             Toggle 0, Announce 0, RemoveListeners (ScanMenuL 2), Toggle 0, IdleMode,
             SpeakSync ''stopping.''] \<and>
   buttonOn (the (fire slowWorld (4500, StopClick) stuckScan)) 0 \<and>
   map_option trace (Option.bind (scanMenu demoWorld ''none'' Listen (initial noneEmpty))
                                 (fire demoWorld (50, StopClick)))
     = Some [AddListeners (ScanMenuL 0), Throw TypeError,
             RemoveListeners (ScanMenuL 0), Throw TypeError]"
  by code_simp

text \<open>
  C6. The callback that \<open>makeButtonCallback\<close> makes for a button of a menu that is in the
  registry. Let \<open>bcb\<close> be the scan of the same menu with the same \<open>cb\<close> when the menu's
  \<open>scanType\<close> is \<open>repeat\<close>, and \<open>cb\<close> itself otherwise. For a button that is not a menu
  selector the callback is \<open>bcb\<close>. For a menu selector the callback scans the target menu
  with the callback \<open>afterTarget\<close>, which slides the target menu up when the target is a
  dropdown menu and then calls \<open>bcb\<close>.
\<close>

theorem makeButtonCallback_continuation:
  assumes "menus w m = Some mn"
  shows "makeButtonCallback w m cb b =
           Inr (if buttonType w b = ''menuSelector''
                then ScanTarget b (if scanType mn = ''repeat'' then ScanMenuAgain m cb else cb)
                else (if scanType mn = ''repeat'' then ScanMenuAgain m cb else cb)) \<and>
         callCont w (ScanMenuAgain m cb) st =
           scanMenu w m cb (emit (Invoke (ScanMenuAgain m cb)) st) \<and>
         callCont w (ScanTarget b bcb) st =
           scanMenu w (target w b) (AfterTarget b bcb) (emit (Invoke (ScanTarget b bcb)) st) \<and>
         (buttonType w b = ''menuSelector'' \<longrightarrow> menus w (target w b) = Some tm \<longrightarrow>
            callCont w (AfterTarget b bcb) st =
              (if hide tm = ''dropdown''
               then callCont w bcb (emit (SlideUp (target w b)) (emit (Invoke (AfterTarget b bcb)) st))
               else callCont w bcb (emit (Invoke (AfterTarget b bcb)) st)))"
  using assms
  by (simp add: makeButtonCallback_def scanMenu_def afterTargetK_def selectsDropdownMenu_def Let_def)

theorem makeButtonCallback_continuation_witness:
  "menus demoWorld ''main'' = Some \<lparr>buttons = [0, 1, 2], hide = ''commboard'', scanType = ''repeat''\<rparr> \<and>
   makeButtonCallback demoWorld ''main'' Listen 0 = Inr (ScanTarget 0 (ScanMenuAgain ''main'' Listen)) \<and>
   makeButtonCallback demoWorld ''main'' Listen 1 = Inr (ScanMenuAgain ''main'' Listen) \<and>
   makeButtonCallback demoWorld ''sub'' (AfterTarget 0 Listen) 3 = Inr (AfterTarget 0 Listen)"
proof -
  have m: "menus demoWorld ''main'' =
      Some \<lparr>buttons = [0, 1, 2], hide = ''commboard'', scanType = ''repeat''\<rparr>"
    by (simp add: demoWorld_def)
  have s: "menus demoWorld ''sub'' =
      Some \<lparr>buttons = [3, 4], hide = ''dropdown'', scanType = ''finish''\<rparr>"
    by (simp add: demoWorld_def)
  have b0: "buttonType demoWorld 0 = ''menuSelector''" "buttonType demoWorld 1 = ''letter''"
    "buttonType demoWorld 3 = ''letter''"
    by (simp_all add: demoWorld_def)
  show ?thesis
    using makeButtonCallback_continuation[OF m, of Listen 0]
      makeButtonCallback_continuation[OF m, of Listen 1]
      makeButtonCallback_continuation[OF s, of "AfterTarget 0 Listen" 3] m b0
    by simp
qed

text \<open>
  C5. In a registered session, a gesture-end \<open>LONG_GAZE_TIME\<close> or more after the recorded
  gesture-begin clears both timers, takes the highlight off the current button when the
  scan has moved on since the gesture began, unregisters the three listeners and then
  calls \<open>cb\<close>; what \<open>cb\<close> does (\<open>xs\<close>) presses no button, and the session is not
  registered afterwards. And a gesture-begin arms a timer for \<open>LONG_GAZE_TIME\<close> later
  which, as long as no gesture-end arrives, no event cancels: run when it is due, it
  sounds the beep.
\<close>

theorem long_gesture_exits_the_menu:
  assumes "inv w st" and "beginListeners st = [ScanMenuL sid]"
  shows "(\<forall>t t0. startTime (sessions st sid) = Some t0 \<longrightarrow>
            int LONG_GAZE_TIME \<le> int t - int t0 \<longrightarrow>
            (\<exists>st' xs. fire w (t, GestureEnd) st = Some st' \<and>
               trace st' = trace st @
                 (if currentButton (sessions st sid) \<noteq> gazeButton (sessions st sid)
                  then [Toggle (the (currentButton (sessions st sid)))] else []) @
                 [RemoveListeners (ScanMenuL sid), Invoke (s_cb (sessions st sid))] @ xs \<and>
               presses xs = [] \<and> ScanMenuL sid \<notin> set (beginListeners st') \<and>
               (\<forall>i. timeout (sessions st sid) = Some i \<longrightarrow> timers st' i = None))) \<and>
         (\<exists>st1. fire w (tb, GestureBegin) st = Some st1 \<and>
            timers st1 (nextTimer st) = Some (tb + LONG_GAZE_TIME, SignalLongGaze) \<and>
            (\<forall>es st2. (\<forall>e \<in> set es. snd e \<noteq> GestureEnd \<and> snd e \<noteq> TimerFire (nextTimer st)) \<longrightarrow>
               run w es st1 = Some st2 \<longrightarrow>
               timers st2 (nextTimer st) = Some (tb + LONG_GAZE_TIME, SignalLongGaze) \<and>
               (\<exists>st3. fire w (tb + LONG_GAZE_TIME, TimerFire (nextTimer st)) st2 = Some st3 \<and>
                      trace st3 = trace st2 @ [Beep BEEP_FREQ BEEP_DURATION])))"
proof (intro conjI allI impI)
  fix t t0
  assume "startTime (sessions st sid) = Some t0" "int LONG_GAZE_TIME \<le> int t - int t0"
  from gazeEnd_long[OF assms this]
  show "\<exists>st' xs. fire w (t, GestureEnd) st = Some st' \<and>
               trace st' = trace st @
                 (if currentButton (sessions st sid) \<noteq> gazeButton (sessions st sid)
                  then [Toggle (the (currentButton (sessions st sid)))] else []) @
                 [RemoveListeners (ScanMenuL sid), Invoke (s_cb (sessions st sid))] @ xs \<and>
               presses xs = [] \<and> ScanMenuL sid \<notin> set (beginListeners st') \<and>
               (\<forall>i. timeout (sessions st sid) = Some i \<longrightarrow> timers st' i = None)" .
next
  let ?st1 = "gazeBegin sid (st\<lparr>now := tb\<rparr>)"
  let ?i = "nextTimer st"
  note b = begin_arms[OF assms, of tb]
  have later: "timers st2 ?i = Some (tb + LONG_GAZE_TIME, SignalLongGaze) \<and>
               (\<exists>st3. fire w (tb + LONG_GAZE_TIME, TimerFire ?i) st2 = Some st3 \<and>
                      trace st3 = trace st2 @ [Beep BEEP_FREQ BEEP_DURATION])"
    if es: "\<forall>e \<in> set es. snd e \<noteq> GestureEnd \<and> snd e \<noteq> TimerFire ?i"
      and r: "run w es ?st1 = Some st2" for es st2
  proof -
    from es have "\<forall>e \<in> set es. snd e \<noteq> TimerFire ?i \<and> snd e \<noteq> GestureEnd" by blast
    from run_armed_kept[OF b(2) b(3) this] r
    have t: "timers st2 ?i = Some (tb + LONG_GAZE_TIME, SignalLongGaze)" using b(4) by auto
    from beep_fires[OF t, of "tb + LONG_GAZE_TIME" w] t show ?thesis by simp
  qed
  show "\<exists>st1. fire w (tb, GestureBegin) st = Some st1 \<and>
            timers st1 ?i = Some (tb + LONG_GAZE_TIME, SignalLongGaze) \<and>
            (\<forall>es st2. (\<forall>e \<in> set es. snd e \<noteq> GestureEnd \<and> snd e \<noteq> TimerFire ?i) \<longrightarrow>
               run w es st1 = Some st2 \<longrightarrow>
               timers st2 ?i = Some (tb + LONG_GAZE_TIME, SignalLongGaze) \<and>
               (\<exists>st3. fire w (tb + LONG_GAZE_TIME, TimerFire ?i) st2 = Some st3 \<and>
                      trace st3 = trace st2 @ [Beep BEEP_FREQ BEEP_DURATION]))"
    using b(1) b(4) later by blast
qed

theorem long_gesture_exits_the_menu_witness:
  "inv demoWorld demoGazing \<and> beginListeners demoGazing = [ScanMenuL 0] \<and>
   startTime (sessions demoGazing 0) = Some 100 \<and>
   (\<exists>st' xs. fire demoWorld (2200, GestureEnd) demoGazing = Some st' \<and>
      trace st' = trace demoGazing @ [RemoveListeners (ScanMenuL 0), Invoke Listen] @ xs \<and>
      presses xs = [] \<and> ScanMenuL 0 \<notin> set (beginListeners st'))"
proof -
  have h2: "beginListeners demoGazing = [ScanMenuL 0]" by code_simp
  have h3: "startTime (sessions demoGazing 0) = Some 100" by code_simp
  have h4: "int LONG_GAZE_TIME \<le> int 2200 - int 100" by (simp add: LONG_GAZE_TIME_def)
  have c: "currentButton (sessions demoGazing 0) = gazeButton (sessions demoGazing 0)"
    by code_simp
  have cb: "s_cb (sessions demoGazing 0) = Listen" by code_simp
  from long_gesture_exits_the_menu[OF demoGazing_inv h2, of 0] h3 h4
  have "\<exists>st' xs. fire demoWorld (2200, GestureEnd) demoGazing = Some st' \<and>
               trace st' = trace demoGazing @
                 (if currentButton (sessions demoGazing 0) \<noteq> gazeButton (sessions demoGazing 0)
                  then [Toggle (the (currentButton (sessions demoGazing 0)))] else []) @
                 [RemoveListeners (ScanMenuL 0), Invoke (s_cb (sessions demoGazing 0))] @ xs \<and>
               presses xs = [] \<and> ScanMenuL 0 \<notin> set (beginListeners st') \<and>
               (\<forall>i. timeout (sessions demoGazing 0) = Some i \<longrightarrow> timers st' i = None)"
    by blast
  then show ?thesis using demoGazing_inv h2 h3 c cb by auto
qed

text \<open>
  C10. Two gesture-begins reach a registered session with no gesture-end between them
  (and the session is still registered at the second). The second overwrites \<open>startTime\<close>
  and \<open>longGazeTimeout\<close> with a new timer and leaves the first timer pending. No closure
  holds the handle of the first timer any more, so no later event, a gesture-end
  included, cancels it: whatever events follow, the first timer is still pending, due
  \<open>LONG_GAZE_TIME\<close> after the first begin, and sounds the beep when it is run.
\<close>

theorem second_begin_leaves_first_warning_armed:
  assumes "inv w st" and "beginListeners st = [ScanMenuL sid]"
  shows "\<exists>st1. fire w (t0, GestureBegin) st = Some st1 \<and>
     (\<forall>es1 st2. (\<forall>e \<in> set es1. snd e \<noteq> GestureEnd \<and> snd e \<noteq> TimerFire (nextTimer st)) \<longrightarrow>
        run w es1 st1 = Some st2 \<longrightarrow> beginListeners st2 = [ScanMenuL sid] \<longrightarrow>
        (\<exists>st3. fire w (t1, GestureBegin) st2 = Some st3 \<and>
           startTime (sessions st3 sid) = Some t1 \<and>
           longGazeTimeout (sessions st3 sid) = Some (nextTimer st2) \<and>
           nextTimer st2 \<noteq> nextTimer st \<and>
           timers st3 (nextTimer st2) = Some (t1 + LONG_GAZE_TIME, SignalLongGaze) \<and>
           timers st3 (nextTimer st) = Some (t0 + LONG_GAZE_TIME, SignalLongGaze) \<and>
           (\<forall>es2 st4. (\<forall>e \<in> set es2. snd e \<noteq> TimerFire (nextTimer st)) \<longrightarrow>
              run w es2 st3 = Some st4 \<longrightarrow>
              timers st4 (nextTimer st) = Some (t0 + LONG_GAZE_TIME, SignalLongGaze) \<and>
              (\<exists>st5. fire w (t0 + LONG_GAZE_TIME, TimerFire (nextTimer st)) st4 = Some st5 \<and>
                     trace st5 = trace st4 @ [Beep BEEP_FREQ BEEP_DURATION]))))"
proof -
  let ?st1 = "gazeBegin sid (st\<lparr>now := t0\<rparr>)"
  let ?i = "nextTimer st"
  note b = begin_arms[OF assms, of t0]
  have second: "\<exists>st3. fire w (t1, GestureBegin) st2 = Some st3 \<and>
           startTime (sessions st3 sid) = Some t1 \<and>
           longGazeTimeout (sessions st3 sid) = Some (nextTimer st2) \<and>
           nextTimer st2 \<noteq> ?i \<and>
           timers st3 (nextTimer st2) = Some (t1 + LONG_GAZE_TIME, SignalLongGaze) \<and>
           timers st3 ?i = Some (t0 + LONG_GAZE_TIME, SignalLongGaze) \<and>
           (\<forall>es2 st4. (\<forall>e \<in> set es2. snd e \<noteq> TimerFire ?i) \<longrightarrow>
              run w es2 st3 = Some st4 \<longrightarrow>
              timers st4 ?i = Some (t0 + LONG_GAZE_TIME, SignalLongGaze) \<and>
              (\<exists>st5. fire w (t0 + LONG_GAZE_TIME, TimerFire ?i) st4 = Some st5 \<and>
                     trace st5 = trace st4 @ [Beep BEEP_FREQ BEEP_DURATION]))"
    if es1: "\<forall>e \<in> set es1. snd e \<noteq> GestureEnd \<and> snd e \<noteq> TimerFire ?i"
      and r1: "run w es1 ?st1 = Some st2" and reg2: "beginListeners st2 = [ScanMenuL sid]"
    for es1 st2
  proof -
    from es1 have "\<forall>e \<in> set es1. snd e \<noteq> TimerFire ?i \<and> snd e \<noteq> GestureEnd" by blast
    from run_armed_kept[OF b(2) b(3) this] r1
    have s2: "inv w st2" "handleFree ?i {sid} st2"
      "timers st2 ?i = Some (t0 + LONG_GAZE_TIME, SignalLongGaze)"
      using b(4) by auto
    let ?st3 = "gazeBegin sid (st2\<lparr>now := t1\<rparr>)"
    note b2 = begin_arms[OF s2(1) reg2, of t1]
    have free2: "handleFree ?i {sid} (st2\<lparr>now := t1\<rparr>)" using s2(2) by (simp add: handleFree_now)
    note o = second_begin_orphans[OF free2]
    have ne: "nextTimer st2 \<noteq> ?i" using s2(2) by (auto simp: handleFree_def)
    have t3: "timers ?st3 ?i = Some (t0 + LONG_GAZE_TIME, SignalLongGaze)"
      using o(2) s2(3) by simp
    have later: "timers st4 ?i = Some (t0 + LONG_GAZE_TIME, SignalLongGaze) \<and>
              (\<exists>st5. fire w (t0 + LONG_GAZE_TIME, TimerFire ?i) st4 = Some st5 \<and>
                     trace st5 = trace st4 @ [Beep BEEP_FREQ BEEP_DURATION])"
      if es2: "\<forall>e \<in> set es2. snd e \<noteq> TimerFire ?i" and r2: "run w es2 ?st3 = Some st4"
      for es2 st4
    proof -
      from run_orphan_kept[OF b2(2) o(1) es2] r2
      have t: "timers st4 ?i = Some (t0 + LONG_GAZE_TIME, SignalLongGaze)" using t3 by auto
      from beep_fires[OF t, of "t0 + LONG_GAZE_TIME" w] t show ?thesis by simp
    qed
    show ?thesis
      using b2(1) b2(6) b2(7) ne b2(4) t3 later by blast
  qed
  show ?thesis using b(1) second by blast
qed

theorem second_begin_leaves_first_warning_armed_witness:
  "inv demoWorld demoStart \<and> beginListeners demoStart = [ScanMenuL 0] \<and>
   (\<exists>st3 st4 st5. fire demoWorld (300, GestureBegin) demoGazing = Some st3 \<and>
      run demoWorld [(700, GestureEnd)] st3 = Some st4 \<and>
      timers st4 1 = Some (100 + LONG_GAZE_TIME, SignalLongGaze) \<and>
      fire demoWorld (100 + LONG_GAZE_TIME, TimerFire 1) st4 = Some st5 \<and>
      trace st5 = trace st4 @ [Beep BEEP_FREQ BEEP_DURATION])"
proof -
  have h2: "beginListeners demoStart = [ScanMenuL 0]" by code_simp
  have n: "nextTimer demoStart = 1" by code_simp
  have g2: "beginListeners demoGazing = [ScanMenuL 0]" by code_simp
  from second_begin_leaves_first_warning_armed[OF demoStart_inv h2, of 100 300, unfolded n]
  obtain st1 where s1: "fire demoWorld (100, GestureBegin) demoStart = Some st1"
    and rest: "\<forall>es1 st2. (\<forall>e \<in> set es1. snd e \<noteq> GestureEnd \<and> snd e \<noteq> TimerFire 1) \<longrightarrow>
        run demoWorld es1 st1 = Some st2 \<longrightarrow> beginListeners st2 = [ScanMenuL 0] \<longrightarrow>
        (\<exists>st3. fire demoWorld (300, GestureBegin) st2 = Some st3 \<and>
           startTime (sessions st3 0) = Some 300 \<and>
           longGazeTimeout (sessions st3 0) = Some (nextTimer st2) \<and>
           nextTimer st2 \<noteq> 1 \<and>
           timers st3 (nextTimer st2) = Some (300 + LONG_GAZE_TIME, SignalLongGaze) \<and>
           timers st3 1 = Some (100 + LONG_GAZE_TIME, SignalLongGaze) \<and>
           (\<forall>es2 st4. (\<forall>e \<in> set es2. snd e \<noteq> TimerFire 1) \<longrightarrow>
              run demoWorld es2 st3 = Some st4 \<longrightarrow>
              timers st4 1 = Some (100 + LONG_GAZE_TIME, SignalLongGaze) \<and>
              (\<exists>st5. fire demoWorld (100 + LONG_GAZE_TIME, TimerFire 1) st4 = Some st5 \<and>
                     trace st5 = trace st4 @ [Beep BEEP_FREQ BEEP_DURATION])))"
    by blast
  have st1: "st1 = demoGazing" using s1 by (simp add: demoGazing_def)
  have pre1: "\<forall>e \<in> set ([] :: (nat \<times> event) list). snd e \<noteq> GestureEnd \<and> snd e \<noteq> TimerFire 1"
    by simp
  have r0: "run demoWorld [] demoGazing = Some demoGazing" by simp
  from rest[unfolded st1] pre1 r0 g2
  obtain st3 where s3: "fire demoWorld (300, GestureBegin) demoGazing = Some st3"
    and rest3: "\<forall>es2 st4. (\<forall>e \<in> set es2. snd e \<noteq> TimerFire 1) \<longrightarrow>
              run demoWorld es2 st3 = Some st4 \<longrightarrow>
              timers st4 1 = Some (100 + LONG_GAZE_TIME, SignalLongGaze) \<and>
              (\<exists>st5. fire demoWorld (100 + LONG_GAZE_TIME, TimerFire 1) st4 = Some st5 \<and>
                     trace st5 = trace st4 @ [Beep BEEP_FREQ BEEP_DURATION])"
    by blast
  from fire_inv[OF demoGazing_inv, of 300 GestureBegin] s3 have inv3: "inv demoWorld st3" by auto
  from run_inv[OF inv3, of "[(700, GestureEnd)]"] obtain st4 where
    s4: "run demoWorld [(700, GestureEnd)] st3 = Some st4" by blast
  have pre2: "\<forall>e \<in> set [(700, GestureEnd)]. snd e \<noteq> TimerFire 1" by simp
  from rest3 pre2 s4
  have "timers st4 1 = Some (100 + LONG_GAZE_TIME, SignalLongGaze) \<and>
        (\<exists>st5. fire demoWorld (100 + LONG_GAZE_TIME, TimerFire 1) st4 = Some st5 \<and>
                     trace st5 = trace st4 @ [Beep BEEP_FREQ BEEP_DURATION])"
    by blast
  with demoStart_inv h2 s3 s4 show ?thesis by blast
qed



subsection \<open>The scan that nobody answers\<close>

text \<open>
  C2, amended to menus that have a button. \<open>scanMenu(menu, cb)\<close> is called while nothing
  is registered, on a menu with at least one button, and then receives no gesture and no
  stop: only its own step timers run, each when it is due. The scan terminates. It
  registers, makes \<open>N_LOOPS\<close> passes, each over the buttons before the first empty one,
  removes its listeners and calls \<open>cb\<close>; this is its only call of a callback, since no
  callback is called before and the closure is left with no listener and no step timer.
  When all the buttons are empty the passes visit nothing and the scan ends in the same
  way, through the loop limit.
\<close>

theorem scan_left_alone_calls_back_once:
  assumes "idle w st" and "menus w m = Some mn" and "buttons mn \<noteq> []"
  shows "\<exists>st1 st_u st' xs.
     scanMenu w m cb st = Some st1 \<and> sweep w (nextClosure st) st1 = Some st' \<and>
     trace st_u = trace st @ AddListeners (ScanMenuL (nextClosure st)) #
        concat (replicate N_LOOPS (concat (map visit (scanned (buttonEmpty st) (buttons mn))))) @
        [RemoveListeners (ScanMenuL (nextClosure st))] \<and>
     invokes (trace st_u) = invokes (trace st) \<and>
     callCont w cb st_u = Some st' \<and> trace st' = trace st_u @ Invoke cb # xs \<and>
     ScanMenuL (nextClosure st) \<notin> set (beginListeners st') \<and>
     (\<forall>i d b bi li. timers st' i \<noteq> Some (d, Next (nextClosure st) b bi li)) \<and>
     ((\<forall>b \<in> set (buttons mn). buttonEmpty st b) \<longrightarrow>
        trace st_u = trace st @ [AddListeners (ScanMenuL (nextClosure st)),
                                 RemoveListeners (ScanMenuL (nextClosure st))])"
proof -
  let ?sid = "nextClosure st"
  let ?passes = "concat (replicate N_LOOPS
                   (concat (map visit (scanned (buttonEmpty st) (buttons mn)))))"
  from scan_left_alone[OF assms, of cb]
  obtain st1 st_u st' xs where r: "scanMenu w m cb st = Some st1"
    "sweep w ?sid st1 = Some st'" "callCont w cb st_u = Some st'"
    "trace st_u = trace st @ AddListeners (ScanMenuL ?sid) # ?passes @
        [RemoveListeners (ScanMenuL ?sid)]"
    "trace st' = trace st_u @ Invoke cb # xs" "inv w st'"
    "ScanMenuL ?sid \<notin> set (beginListeners st')"
    by blast
  have inv0: "invokes (trace st_u) = invokes (trace st)"
    using r(4) by (simp add: invokes_append invokes_passes)
  have dead: "timers st' i \<noteq> Some (d, Next ?sid b bi li)" for i d b bi li
  proof
    assume "timers st' i = Some (d, Next ?sid b bi li)"
    from inv_next_timer(1)[OF r(6) this] r(7) show False by simp
  qed
  have none: "trace st_u = trace st @ [AddListeners (ScanMenuL ?sid), RemoveListeners (ScanMenuL ?sid)]"
    if "\<forall>b \<in> set (buttons mn). buttonEmpty st b"
    using r(4) scanned_none[OF that] by simp
  from r(1-5,7) inv0 dead none show ?thesis by blast
qed

theorem scan_left_alone_calls_back_once_witness:
  "idle demoWorld (initial noneEmpty) \<and>
   menus demoWorld ''main'' =
     Some \<lparr>buttons = [0, 1, 2], hide = ''commboard'', scanType = ''repeat''\<rparr> \<and>
   (\<exists>st1 st_u st' xs.
      scanMenu demoWorld ''main'' Listen (initial noneEmpty) = Some st1 \<and>
      sweep demoWorld 0 st1 = Some st' \<and>
      trace st_u = [AddListeners (ScanMenuL 0),
                    Toggle 0, Announce 0, Toggle 0, Toggle 1, Announce 1, Toggle 1,
                    Toggle 2, Announce 2, Toggle 2,
                    Toggle 0, Announce 0, Toggle 0, Toggle 1, Announce 1, Toggle 1,
                    Toggle 2, Announce 2, Toggle 2,
                    RemoveListeners (ScanMenuL 0)] \<and>
      callCont demoWorld Listen st_u = Some st' \<and> trace st' = trace st_u @ Invoke Listen # xs \<and>
      ScanMenuL 0 \<notin> set (beginListeners st'))"
proof -
  let ?st = "initial noneEmpty"
  let ?mn = "\<lparr>buttons = [0, 1, 2], hide = ''commboard'', scanType = ''repeat''\<rparr>"
  have m: "menus demoWorld ''main'' = Some ?mn" by (simp add: demoWorld_def)
  have ne: "buttons ?mn \<noteq> []" by simp
  have i: "idle demoWorld ?st" by (rule idle_initial)
  have n: "nextClosure ?st = 0" by (simp add: initial_def)
  have p: "trace ?st @ AddListeners (ScanMenuL 0) #
        concat (replicate N_LOOPS (concat (map visit (scanned (buttonEmpty ?st) (buttons ?mn))))) @
        [RemoveListeners (ScanMenuL 0)] =
     [AddListeners (ScanMenuL 0),
      Toggle 0, Announce 0, Toggle 0, Toggle 1, Announce 1, Toggle 1, Toggle 2, Announce 2, Toggle 2,
      Toggle 0, Announce 0, Toggle 0, Toggle 1, Announce 1, Toggle 1, Toggle 2, Announce 2, Toggle 2,
      RemoveListeners (ScanMenuL 0)]"
    by (simp add: initial_def scanned_def noneEmpty_def visit_def N_LOOPS_def numeral_2_eq_2)
  from scan_left_alone_calls_back_once[OF i m ne, of Listen]
  obtain st1 st_u st' xs where "scanMenu demoWorld ''main'' Listen ?st = Some st1"
    "sweep demoWorld (nextClosure ?st) st1 = Some st'"
    "trace st_u = trace ?st @ AddListeners (ScanMenuL (nextClosure ?st)) #
        concat (replicate N_LOOPS (concat (map visit (scanned (buttonEmpty ?st) (buttons ?mn))))) @
        [RemoveListeners (ScanMenuL (nextClosure ?st))]"
    "callCont demoWorld Listen st_u = Some st'" "trace st' = trace st_u @ Invoke Listen # xs"
    "ScanMenuL (nextClosure ?st) \<notin> set (beginListeners st')"
    by blast
  then have "\<exists>st1 st_u st' xs.
      scanMenu demoWorld ''main'' Listen ?st = Some st1 \<and> sweep demoWorld 0 st1 = Some st' \<and>
      trace st_u = [AddListeners (ScanMenuL 0),
                    Toggle 0, Announce 0, Toggle 0, Toggle 1, Announce 1, Toggle 1,
                    Toggle 2, Announce 2, Toggle 2,
                    Toggle 0, Announce 0, Toggle 0, Toggle 1, Announce 1, Toggle 1,
                    Toggle 2, Announce 2, Toggle 2,
                    RemoveListeners (ScanMenuL 0)] \<and>
      callCont demoWorld Listen st_u = Some st' \<and> trace st' = trace st_u @ Invoke Listen # xs \<and>
      ScanMenuL 0 \<notin> set (beginListeners st')"
    unfolding n p by blast
  with i m show ?thesis by blast
qed

text \<open>
  C2 as stated, for every menu, fails on a menu that has no button: the first button is
  \<open>undefined\<close>, \<open>button.isEmpty()\<close> throws after the listeners are registered, and \<open>cb\<close>
  is never called.
\<close>

theorem scan_of_menu_without_buttons_throws:
  "map_option trace (Option.bind (scanMenu demoWorld ''none'' Listen (initial noneEmpty))
                                 (sweep demoWorld 0))
     = Some [AddListeners (ScanMenuL 0), Throw TypeError]"
  by code_simp

text \<open>
  C4, amended. \<open>scanMenu(menu, cb)\<close> is called on a menu with at least one button, in a
  state that satisfies the invariant, with no listener set registered and no pressed
  button still to finish, and it receives no gesture and no stop. Each of the \<open>N_LOOPS\<close>
  passes visits, in menu order and once each, the buttons before the first empty one: it
  toggles the highlight of the button, announces it and, when its step timer runs,
  toggles the highlight back. While a button waits for its step timer, however many
  timers have run, its highlight is the opposite of what it was when \<open>scanMenu\<close> was
  called (a button that was not highlighted is highlighted) and no other highlight has
  changed; when \<open>cb\<close> is called all highlights are as they were. The loop index grows by
  one when the step leaves the last index of the menu. After the passes the listeners are
  removed and \<open>cb\<close> is called; no button is pressed. When no empty button comes before a
  button that is not empty, the buttons visited are all the buttons that are not empty.
\<close>

theorem pass_visits_buttons_before_first_empty:
  assumes "idle w st" and "menus w m = Some mn" and "buttons mn \<noteq> []"
  shows "\<exists>st1 st_u st' xs.
     scanMenu w m cb st = Some st1 \<and> sweep w (nextClosure st) st1 = Some st' \<and>
     trace st' = trace st @ AddListeners (ScanMenuL (nextClosure st)) #
        concat (replicate N_LOOPS
           (concat (map visit (takeWhile (\<lambda>b. \<not> buttonEmpty st b) (buttons mn))))) @
        RemoveListeners (ScanMenuL (nextClosure st)) # Invoke cb # xs \<and>
     presses (trace st') = presses (trace st) \<and>
     callCont w cb st_u = Some st' \<and> buttonOn st_u = buttonOn st \<and>
     (\<forall>n. \<exists>st_n. sweepN w (nextClosure st) n st1 = Some st_n \<and>
        (\<forall>i d b bi li. timers st_n i = Some (d, Next (nextClosure st) b bi li) \<longrightarrow>
             buttonOn st_n = (buttonOn st)(b := \<not> buttonOn st b))) \<and>
     ((\<forall>i j. i < j \<and> j < length (buttons mn) \<and> buttonEmpty st (buttons mn ! i)
              \<longrightarrow> buttonEmpty st (buttons mn ! j)) \<longrightarrow>
        takeWhile (\<lambda>b. \<not> buttonEmpty st b) (buttons mn) =
           filter (\<lambda>b. \<not> buttonEmpty st b) (buttons mn)) \<and>
     (\<forall>j li. nextLoop mn j li = (if Suc j = length (buttons mn) then li + 1 else li))"
proof -
  let ?sid = "nextClosure st"
  let ?passes = "concat (replicate N_LOOPS
                   (concat (map visit (scanned (buttonEmpty st) (buttons mn)))))"
  from scan_left_alone[OF assms, of cb]
  obtain st1 st_u st' xs where r: "scanMenu w m cb st = Some st1"
    "sweep w ?sid st1 = Some st'" "callCont w cb st_u = Some st'"
    "trace st_u = trace st @ AddListeners (ScanMenuL ?sid) # ?passes @
        [RemoveListeners (ScanMenuL ?sid)]"
    "trace st' = trace st_u @ Invoke cb # xs" "presses xs = []" "buttonOn st_u = buttonOn st"
    by blast
  have t: "trace st' = trace st @ AddListeners (ScanMenuL ?sid) #
        concat (replicate N_LOOPS
           (concat (map visit (takeWhile (\<lambda>b. \<not> buttonEmpty st b) (buttons mn))))) @
        RemoveListeners (ScanMenuL ?sid) # Invoke cb # xs"
    using r(4,5) by (simp add: scanned_def)
  have pr: "presses (trace st') = presses (trace st)"
    using r(4,5,6) by (simp add: presses_append presses_passes)
  from scan_lights[OF assms, of cb] r(1)
  have lights: "\<forall>n. \<exists>st_n. sweepN w ?sid n st1 = Some st_n \<and>
        (\<forall>i d b bi li. timers st_n i = Some (d, Next ?sid b bi li) \<longrightarrow>
             buttonOn st_n = (buttonOn st)(b := \<not> buttonOn st b))"
    by auto
  have all: "(\<forall>i j. i < j \<and> j < length (buttons mn) \<and> buttonEmpty st (buttons mn ! i)
              \<longrightarrow> buttonEmpty st (buttons mn ! j)) \<longrightarrow>
        takeWhile (\<lambda>b. \<not> buttonEmpty st b) (buttons mn) =
           filter (\<lambda>b. \<not> buttonEmpty st b) (buttons mn)"
  proof
    assume "\<forall>i j. i < j \<and> j < length (buttons mn) \<and> buttonEmpty st (buttons mn ! i)
              \<longrightarrow> buttonEmpty st (buttons mn ! j)"
    from scanned_all[OF this]
    show "takeWhile (\<lambda>b. \<not> buttonEmpty st b) (buttons mn) =
           filter (\<lambda>b. \<not> buttonEmpty st b) (buttons mn)"
      by (simp add: scanned_def)
  qed
  have wr: "\<forall>j li. nextLoop mn j li = (if Suc j = length (buttons mn) then li + 1 else li)"
    by (simp add: nextLoop_wraps)
  from r(1,2) t pr r(3,7) lights all wr show ?thesis
    by (intro exI[of _ st1] exI[of _ st_u] exI[of _ st'] exI[of _ xs] conjI)
qed

theorem pass_visits_buttons_before_first_empty_witness:
  "idle demoWorld (initial noneEmpty) \<and>
   menus demoWorld ''main'' =
     Some \<lparr>buttons = [0, 1, 2], hide = ''commboard'', scanType = ''repeat''\<rparr> \<and>
   (\<exists>st1 st' xs.
      scanMenu demoWorld ''main'' (ScanMenuAgain ''main'' Listen) (initial noneEmpty) = Some st1 \<and>
      sweep demoWorld 0 st1 = Some st' \<and>
      trace st' = [AddListeners (ScanMenuL 0),
                   Toggle 0, Announce 0, Toggle 0, Toggle 1, Announce 1, Toggle 1,
                   Toggle 2, Announce 2, Toggle 2,
                   Toggle 0, Announce 0, Toggle 0, Toggle 1, Announce 1, Toggle 1,
                   Toggle 2, Announce 2, Toggle 2,
                   RemoveListeners (ScanMenuL 0), Invoke (ScanMenuAgain ''main'' Listen)] @ xs \<and>
      presses (trace st') = [])"
proof -
  let ?st = "initial noneEmpty"
  let ?mn = "\<lparr>buttons = [0, 1, 2], hide = ''commboard'', scanType = ''repeat''\<rparr>"
  let ?cb = "ScanMenuAgain ''main'' Listen"
  have m: "menus demoWorld ''main'' = Some ?mn" by (simp add: demoWorld_def)
  have ne: "buttons ?mn \<noteq> []" by simp
  have i: "idle demoWorld ?st" by (rule idle_initial)
  have n: "nextClosure ?st = 0" "presses (trace ?st) = []" by (simp_all add: initial_def)
  have p: "trace ?st @ AddListeners (ScanMenuL 0) #
        concat (replicate N_LOOPS
           (concat (map visit (takeWhile (\<lambda>b. \<not> buttonEmpty ?st b) (buttons ?mn))))) @
        RemoveListeners (ScanMenuL 0) # Invoke ?cb # xs =
     [AddListeners (ScanMenuL 0),
      Toggle 0, Announce 0, Toggle 0, Toggle 1, Announce 1, Toggle 1, Toggle 2, Announce 2, Toggle 2,
      Toggle 0, Announce 0, Toggle 0, Toggle 1, Announce 1, Toggle 1, Toggle 2, Announce 2, Toggle 2,
      RemoveListeners (ScanMenuL 0), Invoke ?cb] @ xs" for xs
    by (simp add: initial_def noneEmpty_def visit_def N_LOOPS_def numeral_2_eq_2)
  from pass_visits_buttons_before_first_empty[OF i m ne, of ?cb]
  obtain st1 st' xs where "scanMenu demoWorld ''main'' ?cb ?st = Some st1"
    "sweep demoWorld (nextClosure ?st) st1 = Some st'"
    "trace st' = trace ?st @ AddListeners (ScanMenuL (nextClosure ?st)) #
        concat (replicate N_LOOPS
           (concat (map visit (takeWhile (\<lambda>b. \<not> buttonEmpty ?st b) (buttons ?mn))))) @
        RemoveListeners (ScanMenuL (nextClosure ?st)) # Invoke ?cb # xs"
    "presses (trace st') = presses (trace ?st)"
    by blast
  then have "\<exists>st1 st' xs.
      scanMenu demoWorld ''main'' ?cb ?st = Some st1 \<and> sweep demoWorld 0 st1 = Some st' \<and>
      trace st' = [AddListeners (ScanMenuL 0),
                   Toggle 0, Announce 0, Toggle 0, Toggle 1, Announce 1, Toggle 1,
                   Toggle 2, Announce 2, Toggle 2,
                   Toggle 0, Announce 0, Toggle 0, Toggle 1, Announce 1, Toggle 1,
                   Toggle 2, Announce 2, Toggle 2,
                   RemoveListeners (ScanMenuL 0), Invoke ?cb] @ xs \<and>
      presses (trace st') = []"
    unfolding n p by blast
  with i m show ?thesis by blast
qed

text \<open>
  C4 as stated, for menus in which an empty button comes before one that is not, fails
  on the three buttons \<open>0, 1, 2\<close> with the second one empty: button \<open>2\<close> is not empty and
  no pass visits it.
\<close>

theorem button_after_empty_button_is_not_visited:
  "map_option trace (Option.bind (scanMenu demoWorld ''main'' Listen (initial secondEmpty))
                                 (sweep demoWorld 0))
     = Some [AddListeners (ScanMenuL 0), Toggle 0, Announce 0, Toggle 0,
             Toggle 0, Announce 0, Toggle 0, RemoveListeners (ScanMenuL 0),
             Invoke Listen, SpeakSync ''listening.'', ListenMode, AddListeners (ListenL 1)] \<and>
   \<not> secondEmpty 2"
  by code_simp

end
